theory Spec2Isabelle
  imports Main
begin

section \<open>JavaScript strings and arrays\<close>

text \<open>
  A JavaScript string is modelled as a \<open>string\<close> (a list of characters), an index into
  it as a \<open>nat\<close>, and a result that can be \<open>-1\<close> as an \<open>int\<close>.
  \<open>s.slice(0, n)\<close> is \<open>take n s\<close> and \<open>s.slice(n)\<close> is \<open>drop n s\<close>: both clamp
  at the length of the string, as \<open>slice\<close> does.
\<close>

definition nl :: char where
  "nl = CHR 0x0A"

definition tabc :: char where
  "tabc = CHR 0x09"

text \<open>\<open>s.split(c)\<close> for a separator of one character: never the empty array.\<close>

primrec split_on :: "char \<Rightarrow> string \<Rightarrow> string list" where
  "split_on c [] = [[]]"
| "split_on c (x # xs) =
     (if x = c then [] # split_on c xs
      else (case split_on c xs of
              [] \<Rightarrow> [[x]]
            | l # ls \<Rightarrow> (x # l) # ls))"

text \<open>\<open>s.lastIndexOf(c)\<close>: the index of the last occurrence, \<open>-1\<close> when there is none.\<close>

primrec last_index_from :: "char \<Rightarrow> string \<Rightarrow> int \<Rightarrow> int \<Rightarrow> int" where
  "last_index_from c [] i found = found"
| "last_index_from c (x # xs) i found =
     last_index_from c xs (i + 1) (if x = c then i else found)"

definition lastIndexOf :: "string \<Rightarrow> char \<Rightarrow> int" where
  "lastIndexOf s c = last_index_from c s 0 (- 1)"

text \<open>\<open>xs[i]\<close> on an array: \<open>undefined\<close> (here \<open>None\<close>) outside the array.\<close>

definition js_index :: "'a list \<Rightarrow> int \<Rightarrow> 'a option" where
  "js_index xs i = (if 0 \<le> i \<and> i < int (length xs) then Some (xs ! nat i) else None)"

text \<open>\<open>xs.findIndex(p)\<close>: the first index whose element satisfies \<open>p\<close>, else \<open>-1\<close>.\<close>

primrec findIndex :: "('a \<Rightarrow> bool) \<Rightarrow> 'a list \<Rightarrow> int" where
  "findIndex p [] = - 1"
| "findIndex p (x # xs) =
     (if p x then 0 else (let i = findIndex p xs in if i = - 1 then - 1 else i + 1))"

text \<open>\<open>xs.splice(i, 1)\<close> for an index inside the array.\<close>

definition splice1 :: "'a list \<Rightarrow> nat \<Rightarrow> 'a list" where
  "splice1 xs i = take i xs @ drop (Suc i) xs"

text \<open>Decimal rendering of a number inside a template string.\<close>

definition digit_char :: "nat \<Rightarrow> char" where
  "digit_char d = ''0123456789'' ! (d mod 10)"

fun show_nat :: "nat \<Rightarrow> string" where
  "show_nat n = (if n < 10 then [digit_char n] else show_nat (n div 10) @ [digit_char n])"

definition show_int :: "int \<Rightarrow> string" where
  "show_int i = (if i < 0 then CHR ''-'' # show_nat (nat (- i)) else show_nat (nat i))"

text \<open>
  \<open>s.toUpperCase()\<close> on the letters a to z; letters beyond ASCII, which the language
  also maps, are left as they are.
\<close>

definition upper_char :: "char \<Rightarrow> char" where
  "upper_char c =
     (let n = (of_char c :: nat) in if 97 \<le> n \<and> n \<le> 122 then char_of (n - 32) else c)"

definition toUpperCase :: "string \<Rightarrow> string" where
  "toUpperCase s = map upper_char s"

text \<open>\<open>s.endsWith(t)\<close>.\<close>

definition endsWith :: "string \<Rightarrow> string \<Rightarrow> bool" where
  "endsWith s t = (length t \<le> length s \<and> drop (length s - length t) s = t)"


section \<open>Regular expressions\<close>

text \<open>
  The highlighters are chains of \<open>String.prototype.replace\<close> calls with regular
  expression literals. A literal is written here as a term of \<open>regex\<close>, constructor by
  constructor; \<open>rmatch\<close> is the backtracking matcher of the language, returning every
  way the pattern matches at a position, the one the engine finds first at the head.

  A character is an 8-bit \<open>char\<close>: \<open>\s\<close>, \<open>\d\<close>, \<open>\w\<close> and the line terminators are their
  sets of code units below 256.
\<close>

datatype cls = CChar char | CRange char char | CDigit | CSpace | CNonSpace

datatype regex =
    Eps
  | Chr char
  | Dot
  | Set "cls list"
  | NSet "cls list"
  | Seq regex regex
  | Alt regex regex
  | Star regex
  | LazyStar regex
  | Plus regex
  | Opt regex
  | Group nat regex
  | Backref nat
  | Look regex
  | NLook regex
  | WordB
  | Eol
  | EolM

definition ccode :: "char \<Rightarrow> nat" where
  "ccode c = of_char c"

definition is_digit :: "char \<Rightarrow> bool" where
  "is_digit c = (48 \<le> ccode c \<and> ccode c \<le> 57)"

definition is_word :: "char \<Rightarrow> bool" where
  "is_word c =
     (is_digit c \<or> (65 \<le> ccode c \<and> ccode c \<le> 90) \<or> (97 \<le> ccode c \<and> ccode c \<le> 122)
      \<or> c = CHR ''_'')"

definition is_space :: "char \<Rightarrow> bool" where
  "is_space c = ((9 \<le> ccode c \<and> ccode c \<le> 13) \<or> ccode c = 32 \<or> ccode c = 160)"

definition is_line_term :: "char \<Rightarrow> bool" where
  "is_line_term c = (ccode c = 10 \<or> ccode c = 13)"

fun in_cls :: "cls \<Rightarrow> char \<Rightarrow> bool" where
  "in_cls (CChar a) c = (c = a)"
| "in_cls (CRange a b) c = (ccode a \<le> ccode c \<and> ccode c \<le> ccode b)"
| "in_cls CDigit c = is_digit c"
| "in_cls CSpace c = is_space c"
| "in_cls CNonSpace c = (\<not> is_space c)"

definition in_set :: "cls list \<Rightarrow> char \<Rightarrow> bool" where
  "in_set cl c = list_ex (\<lambda>k. in_cls k c) cl"

text \<open>
  A matcher state: the character before the current position (for \<open>\b\<close>), the text
  still to read, the number of characters read since the start of the match, and the
  captures so far, each a group number with its start and end offsets in the match.
\<close>

type_synonym caps = "(nat \<times> nat \<times> nat) list"

type_synonym mstate = "char option \<times> string \<times> nat \<times> caps"

fun eat :: "(char \<Rightarrow> bool) \<Rightarrow> mstate \<Rightarrow> mstate list" where
  "eat f (p, [], k, cs) = []"
| "eat f (p, c # r, k, cs) = (if f c then [(Some c, r, Suc k, cs)] else [])"

fun offset :: "mstate \<Rightarrow> nat" where
  "offset (p, r, k, cs) = k"

fun remaining :: "mstate \<Rightarrow> nat" where
  "remaining (p, r, k, cs) = length r"

definition progress :: "mstate \<Rightarrow> mstate \<Rightarrow> bool" where
  "progress st st' = (offset st' \<noteq> offset st)"

text \<open>
  \<open>r*\<close> and \<open>r*?\<close>. An iteration that reads nothing is rejected, so every iteration reads
  a character and the number of characters left bounds the number of iterations: that
  bound is the second argument.
\<close>

primrec repeat_greedy :: "(mstate \<Rightarrow> mstate list) \<Rightarrow> nat \<Rightarrow> mstate \<Rightarrow> mstate list" where
  "repeat_greedy m 0 st = [st]"
| "repeat_greedy m (Suc n) st =
     concat (map (repeat_greedy m n) (filter (progress st) (m st))) @ [st]"

primrec repeat_lazy :: "(mstate \<Rightarrow> mstate list) \<Rightarrow> nat \<Rightarrow> mstate \<Rightarrow> mstate list" where
  "repeat_lazy m 0 st = [st]"
| "repeat_lazy m (Suc n) st =
     st # concat (map (repeat_lazy m n) (filter (progress st) (m st)))"

fun close_group :: "nat \<Rightarrow> nat \<Rightarrow> mstate \<Rightarrow> mstate" where
  "close_group n a (p, r, k, cs) = (p, r, k, (n, a, k) # cs)"

text \<open>\<open>\n\<close>: the text of group \<open>n\<close> again; a group that took no part matches empty.\<close>

fun backref :: "string \<Rightarrow> nat \<Rightarrow> mstate \<Rightarrow> mstate list" where
  "backref s0 n (p, r, k, cs) =
     (case map_of cs n of
        None \<Rightarrow> [(p, r, k, cs)]
      | Some (a, b) \<Rightarrow>
          (let t = take (b - a) (drop a s0)
           in if t = [] then [(p, r, k, cs)]
              else if take (length t) r = t
              then [(Some (last t), drop (length t) r, k + length t, cs)]
              else []))"

fun keep_caps :: "mstate \<Rightarrow> mstate \<Rightarrow> mstate" where
  "keep_caps (p, r, k, cs) (p', r', k', cs') = (p, r, k, cs')"

fun word_boundary :: "mstate \<Rightarrow> bool" where
  "word_boundary (p, r, k, cs) =
     ((case p of None \<Rightarrow> False | Some c \<Rightarrow> is_word c)
      \<noteq> (case r of [] \<Rightarrow> False | c # _ \<Rightarrow> is_word c))"

fun at_end :: "bool \<Rightarrow> mstate \<Rightarrow> bool" where
  "at_end multiline (p, r, k, cs) =
     (case r of [] \<Rightarrow> True | c # _ \<Rightarrow> multiline \<and> is_line_term c)"

text \<open>
  \<open>rmatch s0 r st\<close>: the states after \<open>r\<close>, from \<open>st\<close>, in the order backtracking tries
  them; \<open>s0\<close> is the text from the start of the match, which back references read.
  \<open>Eol\<close> is \<open>$\<close>, \<open>EolM\<close> is \<open>$\<close> under the flag \<open>m\<close>.
\<close>

primrec rmatch :: "string \<Rightarrow> regex \<Rightarrow> mstate \<Rightarrow> mstate list" where
  "rmatch s0 Eps st = [st]"
| "rmatch s0 (Chr c) st = eat (\<lambda>x. x = c) st"
| "rmatch s0 Dot st = eat (\<lambda>x. \<not> is_line_term x) st"
| "rmatch s0 (Set cl) st = eat (in_set cl) st"
| "rmatch s0 (NSet cl) st = eat (\<lambda>x. \<not> in_set cl x) st"
| "rmatch s0 (Seq r1 r2) st = concat (map (rmatch s0 r2) (rmatch s0 r1 st))"
| "rmatch s0 (Alt r1 r2) st = rmatch s0 r1 st @ rmatch s0 r2 st"
| "rmatch s0 (Star r) st = repeat_greedy (rmatch s0 r) (remaining st) st"
| "rmatch s0 (LazyStar r) st = repeat_lazy (rmatch s0 r) (remaining st) st"
| "rmatch s0 (Plus r) st =
     concat (map (\<lambda>st'. repeat_greedy (rmatch s0 r) (remaining st') st') (rmatch s0 r st))"
| "rmatch s0 (Opt r) st = filter (progress st) (rmatch s0 r st) @ [st]"
| "rmatch s0 (Group n r) st = map (close_group n (offset st)) (rmatch s0 r st)"
| "rmatch s0 (Backref n) st = backref s0 n st"
| "rmatch s0 (Look r) st = (case rmatch s0 r st of [] \<Rightarrow> [] | st' # _ \<Rightarrow> [keep_caps st st'])"
| "rmatch s0 (NLook r) st = (case rmatch s0 r st of [] \<Rightarrow> [st] | _ # _ \<Rightarrow> [])"
| "rmatch s0 WordB st = (if word_boundary st then [st] else [])"
| "rmatch s0 Eol st = (if at_end False st then [st] else [])"
| "rmatch s0 EolM st = (if at_end True st then [st] else [])"

text \<open>
  A matcher is steady when it only moves forward and what it has read and what is left
  always add up to the same text.
\<close>

definition steady :: "(mstate \<Rightarrow> mstate list) \<Rightarrow> bool" where
  "steady m =
     (\<forall>st st'. st' \<in> set (m st) \<longrightarrow>
        offset st \<le> offset st' \<and> offset st' + remaining st' = offset st + remaining st)"

text \<open>Group \<open>n\<close> has taken part in the match so far.\<close>

fun captured :: "nat \<Rightarrow> mstate \<Rightarrow> bool" where
  "captured n (p, r, k, cs) = (map_of cs n \<noteq> None)"

text \<open>
  The matches of a global pattern, left to right: each is its start, its end and its
  captures. The search goes on from the end of a match, and one character further after
  an empty match.
\<close>

function find_all :: "regex \<Rightarrow> char option \<Rightarrow> string \<Rightarrow> nat \<Rightarrow> (nat \<times> nat \<times> caps) list" where
  "find_all r prev rest i =
     (case rest of
        [] \<Rightarrow>
          (case rmatch rest r (prev, rest, 0, []) of
             [] \<Rightarrow> []
           | (p', r', k, cs) # _ \<Rightarrow> [(i, i + k, cs)])
      | c # rest' \<Rightarrow>
          (case rmatch rest r (prev, rest, 0, []) of
             [] \<Rightarrow> find_all r (Some c) rest' (Suc i)
           | (p', r', k, cs) # _ \<Rightarrow>
               (i, i + k, cs) #
               (if k = 0 then find_all r (Some c) rest' (Suc i)
                else find_all r p' (drop k rest) (i + k))))"
  by pat_completeness auto
termination
  by (relation "measure (\<lambda>(r, prev, rest, i). length rest)") auto

declare find_all.simps [simp del]

text \<open>
  The result of \<open>replace\<close>: the text between the matches is copied, each match is
  replaced by what the callback returns for the matched text, its captures and its
  offset. The text is a list over any type of characters: \<open>view\<close> reads the character
  the pattern sees, \<open>ins\<close> makes the characters of the string literals of the program.
  The program itself runs with both the identity; with characters that carry a mark, the
  same functions tell which characters of the output were written by a literal.
\<close>

fun build :: "('a list \<Rightarrow> caps \<Rightarrow> nat \<Rightarrow> 'a list) \<Rightarrow> 'a list \<Rightarrow> nat
    \<Rightarrow> (nat \<times> nat \<times> caps) list \<Rightarrow> 'a list" where
  "build cb xs cur [] = xs"
| "build cb xs cur ((a, b, cs) # ms) =
     take (a - cur) xs @ cb (take (b - a) (drop (a - cur) xs)) cs a
     @ build cb (drop (b - cur) xs) b ms"

definition js_replace :: "('a \<Rightarrow> char) \<Rightarrow> regex \<Rightarrow> ('a list \<Rightarrow> caps \<Rightarrow> nat \<Rightarrow> 'a list)
    \<Rightarrow> 'a list \<Rightarrow> 'a list" where
  "js_replace view r cb xs = build cb xs 0 (find_all r None (map view xs) 0)"

definition grp :: "'a list \<Rightarrow> caps \<Rightarrow> nat \<Rightarrow> 'a list option" where
  "grp m cs n =
     (case map_of cs n of None \<Rightarrow> None | Some (a, b) \<Rightarrow> Some (take (b - a) (drop a m)))"

text \<open>
  A replacement string: literal text, \<open>$n\<close> and \<open>$&\<close>. A group that took no part is
  replaced by the empty string.
\<close>

datatype piece = Lit string | Grp nat | Whole

fun expand_piece :: "(char \<Rightarrow> 'a) \<Rightarrow> 'a list \<Rightarrow> caps \<Rightarrow> piece \<Rightarrow> 'a list" where
  "expand_piece ins m cs (Lit l) = map ins l"
| "expand_piece ins m cs (Grp n) = (case grp m cs n of None \<Rightarrow> [] | Some g \<Rightarrow> g)"
| "expand_piece ins m cs Whole = m"

definition expand :: "(char \<Rightarrow> 'a) \<Rightarrow> piece list \<Rightarrow> 'a list \<Rightarrow> caps \<Rightarrow> nat \<Rightarrow> 'a list" where
  "expand ins tpl m cs off = concat (map (expand_piece ins m cs) tpl)"

definition js_replace_str :: "('a \<Rightarrow> char) \<Rightarrow> (char \<Rightarrow> 'a) \<Rightarrow> regex \<Rightarrow> piece list
    \<Rightarrow> 'a list \<Rightarrow> 'a list" where
  "js_replace_str view ins r tpl xs = js_replace view r (expand ins tpl) xs"

text \<open>
  A callback argument inside a template literal or passed on as a string. Every group
  read this way stands unconditionally in its pattern, so it has taken part in every
  match (\<open>css_value_matches\<close>, \<open>html_tag_matches\<close>, \<open>html_script_matches\<close> below) and
  the case \<open>None\<close> does not arise.
\<close>

definition arg :: "'a list option \<Rightarrow> 'a list" where
  "arg g = (case g of None \<Rightarrow> [] | Some t \<Rightarrow> t)"

text \<open>A literal word, and the alternatives \<open>a|b|c\<close>.\<close>

fun lit :: "string \<Rightarrow> regex" where
  "lit [] = Eps"
| "lit [c] = Chr c"
| "lit (c # cs) = Seq (Chr c) (lit cs)"

fun alts :: "regex list \<Rightarrow> regex" where
  "alts [] = NLook Eps"
| "alts [r] = r"
| "alts (r # rs) = Alt r (alts rs)"

text \<open>\<open>s.replace(/c/g, l)\<close> for a pattern of one literal character.\<close>

definition replace_char :: "('a \<Rightarrow> char) \<Rightarrow> (char \<Rightarrow> 'a) \<Rightarrow> char \<Rightarrow> string \<Rightarrow> 'a list
    \<Rightarrow> 'a list" where
  "replace_char view ins c l xs = concat (map (\<lambda>x. if view x = c then map ins l else [x]) xs)"


section \<open>The highlighters\<close>

definition escapeHtml_on :: "('a \<Rightarrow> char) \<Rightarrow> (char \<Rightarrow> 'a) \<Rightarrow> 'a list \<Rightarrow> 'a list" where
  "escapeHtml_on view ins s =
     replace_char view ins (CHR ''>'') ''&gt;''
       (replace_char view ins (CHR ''<'') ''&lt;''
         (replace_char view ins (CHR ''&'') ''&amp;'' s))"

text \<open>\<open>[\s\S]\<close>\<close>

definition any_char :: regex where
  "any_char = Set [CSpace, CNonSpace]"

subsection \<open>JavaScript\<close>

text \<open>\<^verbatim>\<open>/(\/\*[\s\S]*?\*\/|\/\/.*$)/gm\<close>\<close>

definition js_comment_re :: regex where
  "js_comment_re =
     Group 1 (Alt (Seq (lit ''/*'') (Seq (LazyStar any_char) (lit ''*/'')))
                  (Seq (lit ''//'') (Seq (Star Dot) EolM)))"

text \<open>\<^verbatim>\<open>/(['"`])((?:\\.|(?!\1).)*)\1/g\<close>\<close>

definition js_string_re :: regex where
  \<open>js_string_re =
     Seq (Group 1 (Set [CChar (CHR 0x27), CChar (CHR ''"''), CChar (CHR ''`'')]))
       (Seq (Group 2 (Star (Alt (Seq (Chr (CHR 0x5C)) Dot) (Seq (NLook (Backref 1)) Dot))))
         (Backref 1))\<close>

text \<open>\<^verbatim>\<open>/\b(\d+(\.\d+)?)\b/g\<close>\<close>

definition js_number_re :: regex where
  "js_number_re =
     Seq WordB
       (Seq (Group 1 (Seq (Plus (Set [CDigit]))
                          (Opt (Group 2 (Seq (Chr (CHR ''.'')) (Plus (Set [CDigit])))))))
            WordB)"

definition js_keywords :: "string list" where
  "js_keywords =
     [''const'', ''let'', ''var'', ''function'', ''return'', ''if'', ''else'', ''for'',
      ''while'', ''switch'', ''case'', ''break'', ''new'', ''class'', ''extends'', ''import'',
      ''from'', ''export'', ''default'', ''try'', ''catch'']"

text \<open>\<^verbatim>\<open>/\b(const|let|...|catch)\b/g\<close>\<close>

definition js_keyword_re :: regex where
  "js_keyword_re = Seq WordB (Seq (Group 1 (alts (map lit js_keywords))) WordB)"

definition highlightJS_on :: "('a \<Rightarrow> char) \<Rightarrow> (char \<Rightarrow> 'a) \<Rightarrow> 'a list \<Rightarrow> 'a list" where
  \<open>highlightJS_on view ins code =
     (let out = escapeHtml_on view ins code;
          out = js_replace_str view ins js_comment_re
                  [Lit ''<span class="token-comment">'', Grp 1, Lit ''</span>''] out;
          out = js_replace_str view ins js_string_re
                  [Lit ''<span class="token-string">'', Whole, Lit ''</span>''] out;
          out = js_replace_str view ins js_number_re
                  [Lit ''<span class="token-number">'', Grp 1, Lit ''</span>''] out;
          out = js_replace_str view ins js_keyword_re
                  [Lit ''<span class="token-keyword">'', Grp 1, Lit ''</span>''] out
      in out)\<close>

subsection \<open>CSS\<close>

text \<open>
  The comment line of \<open>highlightCSS\<close> reads
  \<^verbatim>\<open>out.replace(/\/\*[\s\S]*?\*\/g, '<span class="token-comment">$&</span>');\<close>
  The slash that should close the pattern before \<open>g\<close> is missing: the one written there
  is the escaped slash of \<open>\/\<close>. The pattern therefore runs on to the slash of
  \<open></span>\<close>, and its body is
  \<^verbatim>\<open>\/\*[\s\S]*?\*\/g, '<span class="token-comment">$&<\<close>
  and what follows it, \<open>span\<close>, stands where the flags go. No such flags exist, so as
  it is written the line does not parse and the script is refused as a whole. The
  functions are modelled one by one all the same, and this line by what its text holds:
  \<open>css_comment_re\<close> is the body above, read without flags, so that \<open>$\<close> is the end of
  the text, and the replacement is the one the line was written to carry. It is never
  used, since no text matches the pattern (\<open>css_comment_never\<close> below): on either
  reading the line wraps no comment.
\<close>

definition css_comment_re :: regex where
  \<open>css_comment_re =
     Seq (lit ''/*'')
       (Seq (LazyStar any_char)
         (Seq (lit (''*/g, '' @ [CHR 0x27] @ ''<span class="token-comment">''))
           (Seq Eol (lit ''&<''))))\<close>

text \<open>\<^verbatim>\<open>/([.#]?[A-Za-z0-9\-_]+)(?=\s*\{)/g\<close>\<close>

definition css_tag_re :: regex where
  "css_tag_re =
     Seq (Group 1 (Seq (Opt (Set [CChar (CHR ''.''), CChar (CHR ''#'')]))
                       (Plus (Set [CRange (CHR ''A'') (CHR ''Z''), CRange (CHR ''a'') (CHR ''z''),
                                   CRange (CHR ''0'') (CHR ''9''), CChar (CHR ''-''),
                                   CChar (CHR ''_'')]))))
         (Look (Seq (Star (Set [CSpace])) (Chr (CHR ''{''))))"

text \<open>\<^verbatim>\<open>/([a-z-]+)(?=\s*:)/g\<close>\<close>

definition css_attr_re :: regex where
  "css_attr_re =
     Seq (Group 1 (Plus (Set [CRange (CHR ''a'') (CHR ''z''), CChar (CHR ''-'')])))
         (Look (Seq (Star (Set [CSpace])) (Chr (CHR '':''))))"

text \<open>\<^verbatim>\<open>/:\s*([^;}\n]+)/g\<close> with the callback
  \<^verbatim>\<open>(m,p)=>': <span class="token-string">'+escapeHtml(p)+'</span>'\<close>\<close>

definition css_value_re :: regex where
  "css_value_re =
     Seq (Chr (CHR '':''))
       (Seq (Star (Set [CSpace]))
            (Group 1 (Plus (NSet [CChar (CHR '';''), CChar (CHR ''}''), CChar nl]))))"

definition css_value_cb :: "('a \<Rightarrow> char) \<Rightarrow> (char \<Rightarrow> 'a) \<Rightarrow> 'a list \<Rightarrow> caps \<Rightarrow> nat \<Rightarrow> 'a list" where
  \<open>css_value_cb view ins m cs off =
     (let p = arg (grp m cs 1)
      in map ins '': <span class="token-string">'' @ escapeHtml_on view ins p
         @ map ins ''</span>'')\<close>

text \<open>\<^verbatim>\<open>/(\d+)(px|em|rem|%)/g\<close>\<close>

definition css_unit_re :: regex where
  "css_unit_re =
     Seq (Group 1 (Plus (Set [CDigit])))
         (Group 2 (alts [lit ''px'', lit ''em'', lit ''rem'', lit ''%'']))"

definition highlightCSS_on :: "('a \<Rightarrow> char) \<Rightarrow> (char \<Rightarrow> 'a) \<Rightarrow> 'a list \<Rightarrow> 'a list" where
  \<open>highlightCSS_on view ins code =
     (let out = escapeHtml_on view ins code;
          out = js_replace_str view ins css_comment_re
                  [Lit ''<span class="token-comment">'', Whole, Lit ''</span>''] out;
          out = js_replace_str view ins css_tag_re
                  [Lit ''<span class="token-tag">'', Grp 1, Lit ''</span>''] out;
          out = js_replace_str view ins css_attr_re
                  [Lit ''<span class="token-attr">'', Grp 1, Lit ''</span>''] out;
          out = js_replace view css_value_re (css_value_cb view ins) out;
          out = js_replace_str view ins css_unit_re
                  [Lit ''<span class="token-number">'', Grp 1, Lit ''</span>'', Grp 2] out
      in out)\<close>

subsection \<open>HTML\<close>

text \<open>\<^verbatim>\<open>/(&lt;!--[\s\S]*?--&gt;)/g\<close>\<close>

definition html_comment_re :: regex where
  "html_comment_re =
     Group 1 (Seq (lit ''&lt;!--'') (Seq (LazyStar any_char) (lit ''--&gt;'')))"

text \<open>\<^verbatim>\<open>/(&lt;\/?[a-zA-Z0-9\-]+)([^&]*?)(&gt;)/g\<close>\<close>

definition html_tag_re :: regex where
  "html_tag_re =
     Seq (Group 1 (Seq (lit ''&lt;'')
                    (Seq (Opt (Chr (CHR ''/'')))
                         (Plus (Set [CRange (CHR ''a'') (CHR ''z''), CRange (CHR ''A'') (CHR ''Z''),
                                     CRange (CHR ''0'') (CHR ''9''), CChar (CHR ''-'')])))))
       (Seq (Group 2 (LazyStar (NSet [CChar (CHR ''&'')])))
            (Group 3 (lit ''&gt;'')))"

text \<open>\<^verbatim>\<open>/([a-zA-Z-:]+)(="[^"]*")?/g\<close>\<close>

definition html_attr_re :: regex where
  \<open>html_attr_re =
     Seq (Group 1 (Plus (Set [CRange (CHR ''a'') (CHR ''z''), CRange (CHR ''A'') (CHR ''Z''),
                              CChar (CHR ''-''), CChar (CHR '':'')])))
         (Opt (Group 2 (Seq (lit ''="'') (Seq (Star (NSet [CChar (CHR ''"'')])) (Chr (CHR ''"''))))))\<close>

text \<open>
  The callback of the tag pattern is \<^verbatim>\<open>(m, p1, tag, attrs, p4) => ...\<close>. A callback
  receives the match, then the groups, then the offset of the match: with three groups
  in the pattern, \<open>p1\<close> is group 1, \<open>tag\<close> is group 2, \<open>attrs\<close> is group 3 and \<open>p4\<close> is the
  offset, a number.
\<close>

definition html_tag_cb :: "('a \<Rightarrow> char) \<Rightarrow> (char \<Rightarrow> 'a) \<Rightarrow> 'a list \<Rightarrow> caps \<Rightarrow> nat \<Rightarrow> 'a list" where
  \<open>html_tag_cb view ins m cs off =
     (let p1 = arg (grp m cs 1);
          tag = arg (grp m cs 2);
          attrs = arg (grp m cs 3);
          p4 = off;
          attrsHtml = js_replace_str view ins html_attr_re
                        [Lit ''<span class="token-attr">'', Grp 1, Lit ''</span>'', Grp 2] attrs
      in p1 @ map ins ''<span class="token-tag">'' @ tag @ map ins ''</span>'' @ attrsHtml
         @ map ins (show_nat p4))\<close>

text \<open>\<^verbatim>\<open>/(&lt;script[\s\S]*?&gt;)([\s\S]*?)(&lt;\/script&gt;)/g\<close>\<close>

definition html_script_re :: regex where
  "html_script_re =
     Seq (Group 1 (Seq (lit ''&lt;script'') (Seq (LazyStar any_char) (lit ''&gt;''))))
       (Seq (Group 2 (LazyStar any_char))
            (Group 3 (lit ''&lt;/script&gt;'')))"

definition html_script_cb :: "('a \<Rightarrow> char) \<Rightarrow> (char \<Rightarrow> 'a) \<Rightarrow> 'a list \<Rightarrow> caps \<Rightarrow> nat \<Rightarrow> 'a list" where
  \<open>html_script_cb view ins m cs off =
     (let a = arg (grp m cs 1);
          b = arg (grp m cs 2);
          c = arg (grp m cs 3)
      in a @ map ins ''<span class="token-string">'' @ escapeHtml_on view ins b
         @ map ins ''</span>'' @ c)\<close>

definition highlightHTML_on :: "('a \<Rightarrow> char) \<Rightarrow> (char \<Rightarrow> 'a) \<Rightarrow> 'a list \<Rightarrow> 'a list" where
  \<open>highlightHTML_on view ins code =
     (let out = escapeHtml_on view ins code;
          out = js_replace_str view ins html_comment_re
                  [Lit ''<span class="token-comment">'', Grp 1, Lit ''</span>''] out;
          out = js_replace view html_tag_re (html_tag_cb view ins) out;
          out = js_replace view html_script_re (html_script_cb view ins) out
      in out)\<close>

subsection \<open>Choosing the highlighter\<close>

definition highlightByMode_on :: "('a \<Rightarrow> char) \<Rightarrow> (char \<Rightarrow> 'a) \<Rightarrow> 'a list \<Rightarrow> string \<Rightarrow> 'a list" where
  "highlightByMode_on view ins code mode =
     (if mode = ''js'' then highlightJS_on view ins code
      else if mode = ''css'' then highlightCSS_on view ins code
      else if mode = ''html'' then highlightHTML_on view ins code
      else escapeHtml_on view ins code)"

text \<open>The functions of the program: text is a string, a literal is itself.\<close>

definition escapeHtml :: "string \<Rightarrow> string" where
  "escapeHtml s = escapeHtml_on (\<lambda>c. c) (\<lambda>c. c) s"

definition highlightJS :: "string \<Rightarrow> string" where
  "highlightJS code = highlightJS_on (\<lambda>c. c) (\<lambda>c. c) code"

definition highlightCSS :: "string \<Rightarrow> string" where
  "highlightCSS code = highlightCSS_on (\<lambda>c. c) (\<lambda>c. c) code"

definition highlightHTML :: "string \<Rightarrow> string" where
  "highlightHTML code = highlightHTML_on (\<lambda>c. c) (\<lambda>c. c) code"

definition highlightByMode :: "string \<Rightarrow> string \<Rightarrow> string" where
  "highlightByMode code mode = highlightByMode_on (\<lambda>c. c) (\<lambda>c. c) code mode"

text \<open>
  The same functions on marked characters. A character of the source text carries
  \<open>False\<close>; a character written by a string literal of the highlighter carries \<open>True\<close>.
\<close>

type_synonym mchar = "char \<times> bool"

definition from_source :: "string \<Rightarrow> mchar list" where
  "from_source s = map (\<lambda>c. (c, False)) s"

definition written :: "char \<Rightarrow> mchar" where
  "written c = (c, True)"

definition highlight_marked :: "string \<Rightarrow> string \<Rightarrow> mchar list" where
  "highlight_marked code mode = highlightByMode_on fst written (from_source code) mode"

definition is_angle :: "char \<Rightarrow> bool" where
  "is_angle c = (c = CHR ''<'' \<or> c = CHR ''>'')"

text \<open>Every angle bracket of a marked text was written by a literal.\<close>

definition brackets_written :: "mchar list \<Rightarrow> bool" where
  "brackets_written xs = (\<forall>x\<in>set xs. is_angle (fst x) \<longrightarrow> snd x)"

text \<open>\<open>s.includes(t)\<close>, to say what a result contains.\<close>

fun js_includes :: "string \<Rightarrow> string \<Rightarrow> bool" where
  "js_includes [] t = (t = [])"
| "js_includes (c # cs) t = (take (length t) (c # cs) = t \<or> js_includes cs t)"




section \<open>The editor session\<close>

text \<open>
  A tab is the object \<open>{id, name, language, content}\<close> that \<open>createTab\<close> builds.
  The session collects the two globals \<open>openTabs\<close> and \<open>activeTabId\<close>, the pending
  animation frame \<open>raf\<close>, and the parts of the page the code reads and writes: the value
  and the selection of the textarea \<open>editorTA\<close> with its \<open>dataset.tabId\<close>, the markup of
  \<open>highlightPre\<close> and of \<open>gutterEl\<close>, and the text of the three status fields.
\<close>

record tab =
  tab_id :: string
  tab_name :: string
  tab_language :: string
  tab_content :: string

record session =
  openTabs :: "tab list"
  activeTabId :: "string option"
  raf :: bool
  editorValue :: string
  selectionStart :: nat
  selectionEnd :: nat
  editorTabId :: "string option"
  highlightHtml :: string
  gutterHtml :: string
  statusFile :: string
  statusPos :: string
  statusMode :: string

text \<open>
  What the page does when the script assigns to the textarea. Assigning a new value
  moves the caret to the end of the text; assigning the same value leaves the selection
  alone. Assigning \<open>selectionEnd\<close> or \<open>selectionStart\<close> clamps the offset at the length of
  the text and keeps the start at or before the end. A textarea also turns the line
  breaks CR and CRLF of an assigned value into LF; that is left out, the texts here hold
  no CR.
\<close>

definition set_value :: "string \<Rightarrow> session \<Rightarrow> session" where
  "set_value v s =
     (if v = editorValue s then s
      else s\<lparr>editorValue := v, selectionStart := length v, selectionEnd := length v\<rparr>)"

definition set_selectionEnd :: "nat \<Rightarrow> session \<Rightarrow> session" where
  "set_selectionEnd n s =
     (let e = min n (length (editorValue s))
      in s\<lparr>selectionStart := min (selectionStart s) e, selectionEnd := e\<rparr>)"

definition set_selectionStart :: "nat \<Rightarrow> session \<Rightarrow> session" where
  "set_selectionStart n s =
     (let b = min n (length (editorValue s))
      in s\<lparr>selectionStart := b, selectionEnd := max (selectionEnd s) b\<rparr>)"


subsection \<open>Gutter and caret status\<close>

text \<open>
  \<open>updateGutter\<close>: \<open>lines = editorTA.value.split('\n').length || 1\<close>, then one
  \<open><div>i+1</div>\<close> for each \<open>i\<close> below \<open>lines\<close>.
\<close>

definition gutter_lines :: "string \<Rightarrow> nat" where
  "gutter_lines v = (let n = length (split_on nl v) in if n = 0 then 1 else n)"

definition gutter_entry :: "nat \<Rightarrow> string" where
  "gutter_entry i = ''<div>'' @ show_nat (i + 1) @ ''</div>''"

definition updateGutter :: "session \<Rightarrow> session" where
  "updateGutter s =
     s\<lparr>gutterHtml := concat (map gutter_entry [0 ..< gutter_lines (editorValue s)])\<rparr>"

text \<open>
  \<open>updateCaretStatus\<close>: the line is the number of pieces of the text before the caret,
  the column is the caret offset minus the index of the last newline before it.
\<close>

definition caret_line :: "string \<Rightarrow> nat \<Rightarrow> nat" where
  "caret_line v pos = length (split_on nl (take pos v))"

definition caret_col :: "string \<Rightarrow> nat \<Rightarrow> int" where
  "caret_col v pos = int pos - lastIndexOf (take pos v) nl"

definition updateCaretStatus :: "session \<Rightarrow> session" where
  "updateCaretStatus s =
     (let pos = selectionStart s;
          line = caret_line (editorValue s) pos;
          col = caret_col (editorValue s) pos
      in s\<lparr>statusPos := ''Ln '' @ show_nat line @ '', Col '' @ show_int col\<rparr>)"


subsection \<open>The Tab key\<close>

text \<open>\<open>scheduleHighlight\<close> replaces the pending frame, if any, by a new one.\<close>

definition scheduleHighlight :: "session \<Rightarrow> session" where
  "scheduleHighlight s = s\<lparr>raf := True\<rparr>"

text \<open>
  The \<open>keydown\<close> handler of the textarea for \<open>e.key === 'Tab'\<close>: the default action is
  prevented, so the handler's own assignments are all that happens.
\<close>

definition keydown_Tab :: "session \<Rightarrow> session" where
  "keydown_Tab s =
     (let start = selectionStart s;
          end = selectionEnd s;
          val = editorValue s;
          s1 = set_value (take start val @ ''  '' @ drop end val) s;
          s2 = set_selectionEnd (start + 2) s1;
          s3 = set_selectionStart (start + 2) s2
      in scheduleHighlight s3)"


subsection \<open>Tabs\<close>

text \<open>
  A file node of the explorer: \<open>language\<close> and \<open>content\<close> may be absent. \<open>uid\<close> joins
  its prefix and the random suffix \<open>Math.random().toString(36).slice(2,9)\<close>, which is an
  argument here.
\<close>

record fileNode =
  node_name :: string
  node_language :: "string option"
  node_content :: "string option"

definition uid :: "string \<Rightarrow> string \<Rightarrow> string" where
  "uid p rnd = p @ ''-'' @ rnd"

definition detectLanguage :: "string \<Rightarrow> string" where
  "detectLanguage name =
     (if name = [] then ''plaintext''
      else if endsWith name ''.html'' \<or> endsWith name ''.htm'' then ''html''
      else if endsWith name ''.css'' then ''css''
      else if endsWith name ''.js'' then ''js''
      else if endsWith name ''.md'' then ''md''
      else ''plaintext'')"

text \<open>\<open>a || b\<close> on strings that may be absent: an absent or empty \<open>a\<close> gives \<open>b\<close>.\<close>

definition or_else :: "string option \<Rightarrow> string \<Rightarrow> string" where
  "or_else a b = (case a of None \<Rightarrow> b | Some v \<Rightarrow> if v = [] then b else v)"

text \<open>\<open>if (activeTabId)\<close>: \<open>null\<close> and the empty string are false.\<close>

definition truthy :: "string option \<Rightarrow> bool" where
  "truthy a = (case a of None \<Rightarrow> False | Some v \<Rightarrow> v \<noteq> [])"

text \<open>\<open>openTabs.find(t => t.id === activeTabId)\<close>\<close>

definition active_tab :: "session \<Rightarrow> tab option" where
  "active_tab s = find (\<lambda>t. Some (tab_id t) = activeTabId s) (openTabs s)"

text \<open>
  Modelled from the spec: \<open>updateStatusFile\<close>, which \<open>renderTabs\<close> calls and the source
  does not define. The spec has the file status name the open file and read "No file" in
  the zero-tabs-open state.
\<close>

definition updateStatusFile :: "session \<Rightarrow> session" where
  "updateStatusFile s =
     s\<lparr>statusFile := (case active_tab s of None \<Rightarrow> ''No file'' | Some t \<Rightarrow> tab_name t)\<rparr>"

text \<open>
  \<open>renderTabs\<close> rebuilds the tab strip, one button for each open tab in order, and ends
  with \<open>updateStatusFile\<close>. The strip is a function of \<open>openTabs\<close> and \<open>activeTabId\<close>
  and is not kept in the session.
\<close>

definition renderTabs :: "session \<Rightarrow> session" where
  "renderTabs s = updateStatusFile s"

text \<open>
  \<open>loadTabContent\<close>. Its two other statements, the class toggle for line wrapping and
  the deferred \<open>focus()\<close>, touch nothing the session holds.
\<close>

definition loadTabContent :: "tab \<Rightarrow> session \<Rightarrow> session" where
  "loadTabContent t s =
     (let s1 = set_value (tab_content t) s;
          s2 = s1\<lparr>editorTabId := Some (tab_id t)\<rparr>;
          s3 = s2\<lparr>statusMode := toUpperCase (tab_language t)\<rparr>;
          s4 = s3\<lparr>statusFile := tab_name t\<rparr>;
          s5 = scheduleHighlight s4
      in updateGutter s5)"

definition createTab :: "fileNode \<Rightarrow> string \<Rightarrow> session \<Rightarrow> session" where
  "createTab fileNode rnd s =
     (let tid = uid (node_name fileNode) rnd;
          t = \<lparr>tab_id = tid, tab_name = node_name fileNode,
               tab_language = or_else (node_language fileNode) (detectLanguage (node_name fileNode)),
               tab_content = or_else (node_content fileNode) []\<rparr>;
          s1 = s\<lparr>openTabs := openTabs s @ [t]\<rparr>;
          s2 = s1\<lparr>activeTabId := Some tid\<rparr>;
          s3 = renderTabs s2
      in loadTabContent t s3)"

definition openFileTab :: "fileNode \<Rightarrow> string \<Rightarrow> session \<Rightarrow> session" where
  "openFileTab node rnd s =
     (case find (\<lambda>t. tab_name t = node_name node) (openTabs s) of
        Some existing \<Rightarrow>
          loadTabContent existing (renderTabs (s\<lparr>activeTabId := Some (tab_id existing)\<rparr>))
      | None \<Rightarrow> createTab node rnd s)"

text \<open>
  \<open>closeTab\<close>. \<open>loadTabContent\<close> reads the fields of its argument, so it would raise a
  \<open>TypeError\<close> on the \<open>undefined\<close> of a \<open>find\<close> that finds nothing.
\<close>

datatype js_error = TypeError

definition clear_editor :: "session \<Rightarrow> session" where
  "clear_editor s =
     (let s1 = set_value [] s;
          s2 = s1\<lparr>highlightHtml := []\<rparr>;
          s3 = updateGutter s2;
          s4 = s3\<lparr>statusFile := ''No file''\<rparr>
      in s4\<lparr>statusMode := ''Plain Text''\<rparr>)"

definition pick_active :: "tab list \<Rightarrow> int \<Rightarrow> string option" where
  "pick_active tabs idx =
     (case js_index tabs (idx - 1) of
        Some t \<Rightarrow> Some (tab_id t)
      | None \<Rightarrow> (case js_index tabs 0 of Some t \<Rightarrow> Some (tab_id t) | None \<Rightarrow> None))"

definition closeTab :: "string \<Rightarrow> session \<Rightarrow> js_error + session" where
  "closeTab tid s =
     (let idx = findIndex (\<lambda>t. tab_id t = tid) (openTabs s)
      in if idx = - 1 then Inr s
         else
           (let s1 = s\<lparr>openTabs := splice1 (openTabs s) (nat idx)\<rparr>
            in if activeTabId s1 = Some tid
               then
                 (let s2 = s1\<lparr>activeTabId := pick_active (openTabs s1) idx\<rparr>
                  in if truthy (activeTabId s2)
                     then (case active_tab s2 of
                             None \<Rightarrow> Inl TypeError
                           | Some t \<Rightarrow> Inr (renderTabs (loadTabContent t s2)))
                     else Inr (renderTabs (clear_editor s2)))
               else Inr (renderTabs s1)))"

text \<open>
  A click on the button that \<open>renderTabs\<close> made for the tab at position \<open>i\<close> of the
  strip; there is no button beyond the open tabs.
\<close>

definition tab_click :: "nat \<Rightarrow> session \<Rightarrow> session" where
  "tab_click i s =
     (case js_index (openTabs s) (int i) of
        None \<Rightarrow> s
      | Some t \<Rightarrow> renderTabs (loadTabContent t (s\<lparr>activeTabId := Some (tab_id t)\<rparr>)))"

subsection \<open>The animation frame\<close>

text \<open>\<open>tab.content = code\<close> on the tab that \<open>find\<close> returned: the first with that id.\<close>

primrec set_content :: "string option \<Rightarrow> string \<Rightarrow> tab list \<Rightarrow> tab list" where
  "set_content a code [] = []"
| "set_content a code (t # ts) =
     (if Some (tab_id t) = a then t\<lparr>tab_content := code\<rparr> # ts
      else t # set_content a code ts)"

definition empty_placeholder :: string where
  \<open>empty_placeholder = ''<span class="muted">// empty</span>''\<close>

definition frame :: "session \<Rightarrow> session" where
  "frame s =
     (if \<not> raf s then s
      else
        (let s0 = s\<lparr>raf := False\<rparr>;
             mode = (case active_tab s0 of None \<Rightarrow> ''plaintext'' | Some t \<Rightarrow> tab_language t);
             code = replace_char (\<lambda>c. c) (\<lambda>c. c) tabc ''  '' (editorValue s0);
             s1 = s0\<lparr>openTabs := set_content (activeTabId s0) code (openTabs s0)\<rparr>;
             highlighted = highlightByMode code mode;
             s2 = s1\<lparr>highlightHtml :=
                       (if highlighted = [] then empty_placeholder else highlighted)\<rparr>;
             s3 = updateGutter s2
         in updateCaretStatus s3))"

subsection \<open>The states the program reaches\<close>

text \<open>
  The script starts with no tab open and no active tab. From there on the session
  changes by opening a file from the explorer, closing a tab, clicking a tab, the Tab
  key, typing (any new text and caret), and the animation frame.
\<close>

definition type_text :: "string \<Rightarrow> nat \<Rightarrow> session \<Rightarrow> session" where
  "type_text v pos s =
     scheduleHighlight (s\<lparr>editorValue := v, selectionStart := min pos (length v),
                          selectionEnd := min pos (length v)\<rparr>)"

inductive reachable :: "session \<Rightarrow> bool" where
  start: "openTabs s = [] \<Longrightarrow> activeTabId s = None \<Longrightarrow> reachable s"
| opened: "reachable s \<Longrightarrow> reachable (openFileTab node rnd s)"
| closed: "reachable s \<Longrightarrow> closeTab tid s = Inr s' \<Longrightarrow> reachable s'"
| clicked: "reachable s \<Longrightarrow> reachable (tab_click i s)"
| tab_key: "reachable s \<Longrightarrow> reachable (keydown_Tab s)"
| typed: "reachable s \<Longrightarrow> reachable (type_text v pos s)"
| framed: "reachable s \<Longrightarrow> reachable (frame s)"

text \<open>The invariant of C7, and the empty session the examples start from.\<close>

definition tabs_inv :: "session \<Rightarrow> bool" where
  "tabs_inv s =
     ((activeTabId s = None \<or> activeTabId s \<in> Some ` tab_id ` set (openTabs s))
      \<and> distinct (map tab_name (openTabs s)))"

text \<open>What holds besides in every state the program reaches: with a tab open, one is active.\<close>

definition session_ok :: "session \<Rightarrow> bool" where
  "session_ok s = (tabs_inv s \<and> (openTabs s = [] \<or> activeTabId s \<noteq> None))"

text \<open>Sessions for the examples: tabs named by a list, and the active one by its name.\<close>

definition demo_tab :: "string \<Rightarrow> tab" where
  "demo_tab n = \<lparr>tab_id = uid n ''k3x'', tab_name = n, tab_language = detectLanguage n,
                 tab_content = ''x''\<rparr>"

definition demo_node :: "string \<Rightarrow> fileNode" where
  "demo_node n = \<lparr>node_name = n, node_language = None, node_content = Some ''x''\<rparr>"

definition empty_session :: session where
  "empty_session =
     \<lparr>openTabs = [], activeTabId = None, raf = False, editorValue = [], selectionStart = 0,
      selectionEnd = 0, editorTabId = None, highlightHtml = [], gutterHtml = [],
      statusFile = [], statusPos = [], statusMode = []\<rparr>"

definition demo_session :: "string list \<Rightarrow> string \<Rightarrow> session" where
  "demo_session names active =
     empty_session\<lparr>openTabs := map demo_tab names, activeTabId := Some (uid active ''k3x'')\<rparr>"


section \<open>Line numbers and caret position\<close>

lemma set_value_editorValue: "editorValue (set_value v s) = v"
  by (simp add: set_value_def)

lemma split_on_nonempty: "split_on c s \<noteq> []"
  by (induction s) (auto split: list.splits)

lemma gutter_lines_split: "gutter_lines v = length (split_on nl v)"
  using split_on_nonempty [of nl v] by (simp add: gutter_lines_def Let_def)

text \<open>
  C3, as the code has it. For the content \<open>a\nb\nc\<close> the gutter has three lines. The
  caret offset just after \<open>a\n\<close> is 2, and there the status is line 2, column 1; at
  offset 3, which is after the \<open>b\<close>, the status is line 2, column 2.
\<close>

theorem C3_gutter_and_caret:
  "gutter_lines [CHR ''a'', nl, CHR ''b'', nl, CHR ''c''] = 3
   \<and> gutterHtml (updateGutter (empty_session\<lparr>editorValue := [CHR ''a'', nl, CHR ''b'', nl, CHR ''c'']\<rparr>))
       = ''<div>1</div><div>2</div><div>3</div>''
   \<and> caret_line [CHR ''a'', nl, CHR ''b'', nl, CHR ''c''] 3 = 2
   \<and> caret_col [CHR ''a'', nl, CHR ''b'', nl, CHR ''c''] 3 = 2
   \<and> caret_line [CHR ''a'', nl, CHR ''b'', nl, CHR ''c''] 2 = 2
   \<and> caret_col [CHR ''a'', nl, CHR ''b'', nl, CHR ''c''] 2 = 1"
  by (simp add: gutter_lines_def updateGutter_def gutter_entry_def digit_char_def
      caret_line_def caret_col_def lastIndexOf_def nl_def upt_conv_Cons)

text \<open>
  C3, as the claim states it, fails: at offset 3 the column is not 1.
\<close>

theorem C3_offset3_counterexample:
  "\<not> (caret_line [CHR ''a'', nl, CHR ''b'', nl, CHR ''c''] 3 = 2
      \<and> caret_col [CHR ''a'', nl, CHR ''b'', nl, CHR ''c''] 3 = 1)"
  by (simp add: caret_line_def caret_col_def lastIndexOf_def nl_def)

text \<open>
  C10. Whatever the text and the selection (with the selection start inside the text, as
  the page guarantees), the Tab key replaces the selected range by exactly two spaces
  and leaves a collapsed caret at \<open>start + 2\<close>, right after them.
\<close>

theorem C10_tab_inserts_two_spaces:
  assumes "selectionStart s \<le> length (editorValue s)"
  shows "editorValue (keydown_Tab s)
           = take (selectionStart s) (editorValue s) @ ''  '' @ drop (selectionEnd s) (editorValue s)
         \<and> selectionStart (keydown_Tab s) = selectionStart s + 2
         \<and> selectionEnd (keydown_Tab s) = selectionStart s + 2
         \<and> take 2 (drop (selectionStart s) (editorValue (keydown_Tab s))) = ''  ''"
proof -
  define v where "v = take (selectionStart s) (editorValue s) @ ''  '' @ drop (selectionEnd s) (editorValue s)"
  define s1 where "s1 = set_value v s"
  define s2 where "s2 = set_selectionEnd (selectionStart s + 2) s1"
  define s3 where "s3 = set_selectionStart (selectionStart s + 2) s2"
  have len: "selectionStart s + 2 \<le> length v"
    using assms by (simp add: v_def)
  have v1: "editorValue s1 = v"
    by (simp add: s1_def set_value_editorValue)
  have v2: "editorValue s2 = v" "selectionEnd s2 = selectionStart s + 2"
    using len v1 by (simp_all add: s2_def set_selectionEnd_def Let_def)
  have v3: "editorValue s3 = v" "selectionStart s3 = selectionStart s + 2"
    "selectionEnd s3 = selectionStart s + 2"
    using len v2 by (simp_all add: s3_def set_selectionStart_def Let_def)
  have k: "keydown_Tab s = scheduleHighlight s3"
    by (simp add: keydown_Tab_def Let_def s3_def s2_def s1_def v_def)
  have sp: "take 2 (drop (selectionStart s) v) = ''  ''"
    using assms by (simp add: v_def)
  show ?thesis
    using v3 sp by (simp add: k scheduleHighlight_def v_def)
qed

text \<open>The Tab key on \<open>ab\<close> with the caret between the two letters.\<close>

theorem C10_tab_witness:
  "selectionStart (empty_session\<lparr>editorValue := ''ab'', selectionStart := 1, selectionEnd := 1\<rparr>)
     \<le> length (editorValue (empty_session\<lparr>editorValue := ''ab'', selectionStart := 1,
                                           selectionEnd := 1\<rparr>))
   \<and> editorValue (keydown_Tab (empty_session\<lparr>editorValue := ''ab'', selectionStart := 1,
                                              selectionEnd := 1\<rparr>)) = ''a  b''
   \<and> selectionStart (keydown_Tab (empty_session\<lparr>editorValue := ''ab'', selectionStart := 1,
                                                 selectionEnd := 1\<rparr>)) = 3
   \<and> selectionEnd (keydown_Tab (empty_session\<lparr>editorValue := ''ab'', selectionStart := 1,
                                               selectionEnd := 1\<rparr>)) = 3"
  using C10_tab_inserts_two_spaces
    [of "empty_session\<lparr>editorValue := ''ab'', selectionStart := 1, selectionEnd := 1\<rparr>"]
  by simp


section \<open>Tabs: opening, closing, switching\<close>

subsection \<open>Arrays\<close>

lemma findIndex_ge: "- 1 \<le> findIndex p xs"
  by (induction xs) (auto simp: Let_def)

lemma findIndex_none: "(findIndex p xs = - 1) = (\<forall>x\<in>set xs. \<not> p x)"
proof (induction xs)
  case Nil
  show ?case by simp
next
  case (Cons x xs)
  have "- 1 \<le> findIndex p xs" by (rule findIndex_ge)
  with Cons show ?case by (auto simp: Let_def)
qed

lemma findIndex_first:
  "\<forall>x\<in>set pre. \<not> p x \<Longrightarrow> p t \<Longrightarrow> findIndex p (pre @ t # post) = int (length pre)"
  by (induction pre) (auto simp: Let_def)

lemma splice1_at: "splice1 (pre @ t # post) (length pre) = pre @ post"
  by (simp add: splice1_def)

lemma js_index_0: "js_index xs 0 = (case xs of [] \<Rightarrow> None | x # _ \<Rightarrow> Some x)"
  by (cases xs) (simp_all add: js_index_def)

lemma js_index_before:
  "js_index (pre @ post) (int (length pre) - 1) = (if pre = [] then None else Some (last pre))"
proof (cases "pre = []")
  case True
  then show ?thesis by (simp add: js_index_def)
next
  case False
  then have "nat (int (length pre) - 1) = length pre - 1" by simp
  moreover have "(pre @ post) ! (length pre - 1) = last pre"
    using False by (simp add: nth_append last_conv_nth)
  moreover have "0 \<le> int (length pre) - 1" "int (length pre) - 1 < int (length (pre @ post))"
    using False by (simp_all add: Suc_leI)
  ultimately show ?thesis using False by (simp add: js_index_def)
qed

lemma pick_active_at:
  "pick_active (pre @ post) (int (length pre)) =
     (if pre \<noteq> [] then Some (tab_id (last pre))
      else if post \<noteq> [] then Some (tab_id (hd post)) else None)"
proof (cases "pre = []")
  case True
  then show ?thesis
    by (cases post) (simp_all add: pick_active_def js_index_def)
next
  case False
  then show ?thesis
    using js_index_before [of pre post] by (simp add: pick_active_def)
qed

lemma find_id_Some:
  "a \<in> tab_id ` set xs \<Longrightarrow> \<exists>t. find (\<lambda>t. Some (tab_id t) = Some a) xs = Some t \<and> tab_id t = a \<and> t \<in> set xs"
  by (induction xs) auto

subsection \<open>What each step does to the tabs\<close>

lemma loadTabContent_tabs [simp]:
  "openTabs (loadTabContent t s) = openTabs s"
  "activeTabId (loadTabContent t s) = activeTabId s"
  by (simp_all add: loadTabContent_def Let_def set_value_def scheduleHighlight_def updateGutter_def)

lemma renderTabs_tabs [simp]:
  "openTabs (renderTabs s) = openTabs s"
  "activeTabId (renderTabs s) = activeTabId s"
  by (simp_all add: renderTabs_def updateStatusFile_def)

lemma clear_editor_tabs [simp]:
  "openTabs (clear_editor s) = openTabs s"
  "activeTabId (clear_editor s) = activeTabId s"
  by (simp_all add: clear_editor_def Let_def set_value_def updateGutter_def)

lemma keydown_Tab_tabs [simp]:
  "openTabs (keydown_Tab s) = openTabs s"
  "activeTabId (keydown_Tab s) = activeTabId s"
  by (simp_all add: keydown_Tab_def Let_def set_value_def scheduleHighlight_def
      set_selectionEnd_def set_selectionStart_def)

lemma type_text_tabs [simp]:
  "openTabs (type_text v pos s) = openTabs s"
  "activeTabId (type_text v pos s) = activeTabId s"
  by (simp_all add: type_text_def scheduleHighlight_def)

lemma set_content_ids [simp]: "map tab_id (set_content a c xs) = map tab_id xs"
  by (induction xs) auto

lemma set_content_names [simp]: "map tab_name (set_content a c xs) = map tab_name xs"
  by (induction xs) auto

lemma set_content_Nil [simp]: "(set_content a c xs = []) = (xs = [])"
  by (cases xs) auto

lemma frame_tabs [simp]:
  "map tab_id (openTabs (frame s)) = map tab_id (openTabs s)"
  "map tab_name (openTabs (frame s)) = map tab_name (openTabs s)"
  "activeTabId (frame s) = activeTabId s"
  "(openTabs (frame s) = []) = (openTabs s = [])"
  by (simp_all add: frame_def Let_def updateGutter_def updateCaretStatus_def)

lemma openFileTab_existing:
  assumes "find (\<lambda>t. tab_name t = node_name node) (openTabs s) = Some e"
  shows "openTabs (openFileTab node rnd s) = openTabs s"
    and "activeTabId (openFileTab node rnd s) = Some (tab_id e)"
  using assms by (simp_all add: openFileTab_def)

lemma openFileTab_new:
  assumes "find (\<lambda>t. tab_name t = node_name node) (openTabs s) = None"
  shows "\<exists>t. openTabs (openFileTab node rnd s) = openTabs s @ [t]
            \<and> tab_name t = node_name node \<and> tab_id t = uid (node_name node) rnd
            \<and> activeTabId (openFileTab node rnd s) = Some (tab_id t)"
  using assms by (simp add: openFileTab_def createTab_def Let_def)

lemma tab_click_tabs:
  "openTabs (tab_click i s) = openTabs s"
  "activeTabId (tab_click i s) = (if i < length (openTabs s) then Some (tab_id (openTabs s ! i)) else activeTabId s)"
  by (simp_all add: tab_click_def js_index_def split: option.splits)

text \<open>Closing a tab whose id is found: the first tab with that id goes.\<close>

lemma closeTab_found:
  assumes tabs: "openTabs s = pre @ t # post"
    and first: "\<forall>x\<in>set pre. tab_id x \<noteq> tab_id t"
  shows "\<exists>s'. closeTab (tab_id t) s = Inr s' \<and> openTabs s' = pre @ post
           \<and> activeTabId s' =
               (if activeTabId s = Some (tab_id t)
                then (if pre \<noteq> [] then Some (tab_id (last pre))
                      else if post \<noteq> [] then Some (tab_id (hd post)) else None)
                else activeTabId s)"
proof -
  have idx: "findIndex (\<lambda>x. tab_id x = tab_id t) (pre @ t # post) = int (length pre)"
    using first by (simp add: findIndex_first)
  define s1 where "s1 = s\<lparr>openTabs := pre @ post\<rparr>"
  define s2 where "s2 = s1\<lparr>activeTabId := pick_active (pre @ post) (int (length pre))\<rparr>"
  show ?thesis
  proof (cases "activeTabId s = Some (tab_id t)")
    case False
    then show ?thesis
      by (simp add: closeTab_def idx Let_def tabs splice1_at)
  next
    case True
    show ?thesis
    proof (cases "truthy (activeTabId s2)")
      case False
      then show ?thesis using True
        by (simp add: closeTab_def idx Let_def tabs splice1_at s2_def s1_def pick_active_at)
    next
      case tr: True
      then obtain a where a: "activeTabId s2 = Some a"
        by (auto simp: truthy_def split: option.splits)
      then have "a \<in> tab_id ` set (pre @ post)"
        by (auto simp: s2_def pick_active_at split: if_splits)
      then obtain e where "find (\<lambda>t. Some (tab_id t) = Some a) (pre @ post) = Some e"
        using find_id_Some by blast
      then have "active_tab s2 = Some e"
        using a by (simp add: active_tab_def s2_def s1_def)
      then show ?thesis using True tr
        by (simp add: closeTab_def idx Let_def tabs splice1_at s2_def s1_def pick_active_at)
    qed
  qed
qed

lemma closeTab_absent:
  "\<forall>t\<in>set (openTabs s). tab_id t \<noteq> tid \<Longrightarrow> closeTab tid s = Inr s"
  using findIndex_none [of "\<lambda>t. tab_id t = tid" "openTabs s"]
  by (simp add: closeTab_def)

lemma closeTab_cases:
  obtains (absent) "\<forall>t\<in>set (openTabs s). tab_id t \<noteq> tid" "closeTab tid s = Inr s"
  | (found) pre t post s' where "openTabs s = pre @ t # post" "tab_id t = tid"
      "\<forall>x\<in>set pre. tab_id x \<noteq> tid" "closeTab tid s = Inr s'" "openTabs s' = pre @ post"
      "activeTabId s' =
               (if activeTabId s = Some tid
                then (if pre \<noteq> [] then Some (tab_id (last pre))
                      else if post \<noteq> [] then Some (tab_id (hd post)) else None)
                else activeTabId s)"
proof (cases "\<forall>t\<in>set (openTabs s). tab_id t \<noteq> tid")
  case True
  then show ?thesis using absent closeTab_absent by blast
next
  case False
  then have "\<exists>x\<in>set (openTabs s). tab_id x = tid" by blast
  then obtain pre t post where d: "openTabs s = pre @ t # post" "tab_id t = tid"
    "\<forall>x\<in>set pre. tab_id x \<noteq> tid"
    using split_list_first_prop [of "openTabs s" "\<lambda>x. tab_id x = tid"] by blast
  with closeTab_found [of s pre t post] show ?thesis using found by auto
qed

lemma frame_id_set: "tab_id ` set (openTabs (frame s)) = tab_id ` set (openTabs s)"
  using frame_tabs(1) [of s] by (metis set_map)

lemma inv_open: "tabs_inv s \<Longrightarrow> tabs_inv (openFileTab node rnd s)"
proof (cases "find (\<lambda>t. tab_name t = node_name node) (openTabs s)")
  case None
  assume ok: "tabs_inv s"
  from openFileTab_new [OF None, of rnd]
  obtain t where t: "openTabs (openFileTab node rnd s) = openTabs s @ [t]"
    "tab_name t = node_name node" "activeTabId (openFileTab node rnd s) = Some (tab_id t)"
    by blast
  have "node_name node \<notin> tab_name ` set (openTabs s)"
    using None by (auto simp: find_None_iff)
  with ok t show ?thesis by (auto simp: tabs_inv_def)
next
  case (Some e)
  assume ok: "tabs_inv s"
  have "e \<in> set (openTabs s)"
    using Some by (auto simp: find_Some_iff)
  with ok openFileTab_existing [OF Some, of rnd] show ?thesis
    by (auto simp: tabs_inv_def)
qed

lemma inv_close: "tabs_inv s \<Longrightarrow> \<exists>s'. closeTab tid s = Inr s' \<and> tabs_inv s'"
proof -
  assume ok: "tabs_inv s"
  show ?thesis
  proof (cases rule: closeTab_cases [of s tid])
    case absent
    with ok show ?thesis by simp
  next
    case (found pre t post s')
    have d: "distinct (map tab_name (pre @ post))"
      using ok found(1) by (simp add: tabs_inv_def)
    have a: "activeTabId s' = None \<or> activeTabId s' \<in> Some ` tab_id ` set (pre @ post)"
    proof (cases "activeTabId s = Some tid")
      case True
      then show ?thesis using found(6) by (cases pre; cases post) auto
    next
      case False
      then have same: "activeTabId s' = activeTabId s" using found(6) by simp
      show ?thesis
      proof (cases "activeTabId s")
        case None
        then show ?thesis using same by simp
      next
        case (Some a)
        then have "a \<in> tab_id ` set (pre @ t # post)" "a \<noteq> tab_id t"
          using ok found(1,2) False by (auto simp: tabs_inv_def)
        then show ?thesis using same Some by auto
      qed
    qed
    from d a found(4,5) show ?thesis
      by (simp add: tabs_inv_def)
  qed
qed

lemma inv_click: "tabs_inv s \<Longrightarrow> tabs_inv (tab_click i s)"
  by (auto simp: tabs_inv_def tab_click_tabs)

lemma inv_frame: "tabs_inv s \<Longrightarrow> tabs_inv (frame s)"
  by (simp add: tabs_inv_def frame_id_set)

lemma inv_tab_key: "tabs_inv s \<Longrightarrow> tabs_inv (keydown_Tab s)"
  by (simp add: tabs_inv_def)

lemma inv_typed: "tabs_inv s \<Longrightarrow> tabs_inv (type_text v pos s)"
  by (simp add: tabs_inv_def)

lemma openFileTab_active: "activeTabId (openFileTab node rnd s) \<noteq> None"
  by (cases "find (\<lambda>t. tab_name t = node_name node) (openTabs s)")
     (simp_all add: openFileTab_def createTab_def Let_def)

lemma ok_close: "session_ok s \<Longrightarrow> closeTab tid s = Inr s' \<Longrightarrow> session_ok s'"
proof -
  assume ok: "session_ok s" and c: "closeTab tid s = Inr s'"
  from ok inv_close [of s tid] c have i: "tabs_inv s'"
    by (auto simp: session_ok_def)
  have "openTabs s' = [] \<or> activeTabId s' \<noteq> None"
  proof (cases rule: closeTab_cases [of s tid])
    case absent
    with ok c show ?thesis by (auto simp: session_ok_def)
  next
    case (found pre t post s'')
    with ok c show ?thesis by (auto simp: session_ok_def)
  qed
  with i show ?thesis by (simp add: session_ok_def)
qed

lemma reachable_ok: "reachable s \<Longrightarrow> session_ok s"
proof (induction rule: reachable.induct)
  case (start s)
  then show ?case by (simp add: session_ok_def tabs_inv_def)
next
  case (opened s node rnd)
  then show ?case by (simp add: session_ok_def inv_open openFileTab_active)
next
  case (closed s tid s')
  then show ?case using ok_close by blast
next
  case (clicked s i)
  then show ?case by (auto simp: session_ok_def inv_click tab_click_tabs)
next
  case (tab_key s)
  then show ?case by (simp add: session_ok_def inv_tab_key)
next
  case (typed s v pos)
  then show ?case by (simp add: session_ok_def inv_typed)
next
  case (framed s)
  then show ?case by (simp add: session_ok_def inv_frame)
qed

text \<open>
  C5. Take any open-tab sequence and the first tab in it with a given id, and let that tab
  be the active one. Closing it removes it and makes active the tab just before it in the
  sequence; if none precedes it, the first of the tabs that remain; if none remain, no tab.
\<close>

theorem C5_close_active_tab:
  assumes "openTabs s = pre @ t # post"
    and "\<forall>x\<in>set pre. tab_id x \<noteq> tab_id t"
    and "activeTabId s = Some (tab_id t)"
  shows "\<exists>s'. closeTab (tab_id t) s = Inr s' \<and> openTabs s' = pre @ post
           \<and> activeTabId s' =
               (if pre \<noteq> [] then Some (tab_id (last pre))
                else if post \<noteq> [] then Some (tab_id (hd post)) else None)"
  using closeTab_found [OF assms(1,2)] assms(3) by simp

text \<open>Three tabs, the middle one active and closed: the first becomes active.\<close>

theorem C5_witness:
  "\<exists>s'. closeTab (uid ''b.js'' ''k3x'') (demo_session [''a.js'', ''b.js'', ''c.js''] ''b.js'') = Inr s'
       \<and> openTabs s' = [demo_tab ''a.js'', demo_tab ''c.js'']
       \<and> activeTabId s' = Some (uid ''a.js'' ''k3x'')"
  using C5_close_active_tab [of "demo_session [''a.js'', ''b.js'', ''c.js''] ''b.js''"
      "[demo_tab ''a.js'']" "demo_tab ''b.js''" "[demo_tab ''c.js'']"]
  by (simp add: demo_session_def demo_tab_def uid_def)

text \<open>
  C6. When a tab with the name of the node is open, opening the node adds no tab: the
  sequence, and so its length, is unchanged, and a tab with that name becomes the active
  one. With one tab for each name it is the tab with that name.
\<close>

theorem C6_open_existing:
  assumes "e \<in> set (openTabs s)" and "tab_name e = node_name node"
  shows "openTabs (openFileTab node rnd s) = openTabs s
         \<and> length (openTabs (openFileTab node rnd s)) = length (openTabs s)
         \<and> (\<exists>x\<in>set (openTabs s). tab_name x = node_name node
               \<and> activeTabId (openFileTab node rnd s) = Some (tab_id x))
         \<and> (distinct (map tab_name (openTabs s))
              \<longrightarrow> activeTabId (openFileTab node rnd s) = Some (tab_id e))"
proof -
  have "find (\<lambda>t. tab_name t = node_name node) (openTabs s) \<noteq> None"
    using assms by (auto simp: find_None_iff)
  then obtain x where x: "find (\<lambda>t. tab_name t = node_name node) (openTabs s) = Some x"
    by blast
  then have xin: "x \<in> set (openTabs s)" "tab_name x = node_name node"
    by (auto simp: find_Some_iff)
  have "x = e" if "distinct (map tab_name (openTabs s))"
  proof -
    have "inj_on tab_name (set (openTabs s))"
      using that by (simp add: distinct_map)
    then show ?thesis
      using xin assms by (simp add: inj_on_def)
  qed
  with openFileTab_existing [OF x, of rnd] xin show ?thesis by auto
qed

text \<open>Two tabs open; opening the file of the second makes it active.\<close>

theorem C6_witness:
  "demo_tab ''b.js'' \<in> set (openTabs (demo_session [''a.js'', ''b.js''] ''a.js''))
   \<and> distinct (map tab_name (openTabs (demo_session [''a.js'', ''b.js''] ''a.js'')))
   \<and> length (openTabs (openFileTab (demo_node ''b.js'') ''q7'' (demo_session [''a.js'', ''b.js''] ''a.js''))) = 2
   \<and> activeTabId (openFileTab (demo_node ''b.js'') ''q7'' (demo_session [''a.js'', ''b.js''] ''a.js''))
       = Some (uid ''b.js'' ''k3x'')"
  using C6_open_existing [of "demo_tab ''b.js''" "demo_session [''a.js'', ''b.js''] ''a.js''"
      "demo_node ''b.js''" "''q7''"]
  by (simp add: demo_session_def demo_tab_def demo_node_def)

text \<open>
  C7. The active id is null or the id of an open tab, and no two open tabs share a name:
  opening a file, closing a tab and clicking a tab keep this, and so do the animation
  frame, the Tab key and typing. Closing a tab never raises.
\<close>

theorem C7_tabs_invariant:
  assumes "tabs_inv s"
  shows "tabs_inv (openFileTab node rnd s)
         \<and> (\<exists>s'. closeTab tid s = Inr s' \<and> tabs_inv s')
         \<and> tabs_inv (tab_click i s)
         \<and> tabs_inv (frame s)
         \<and> tabs_inv (keydown_Tab s)
         \<and> tabs_inv (type_text v pos s)"
proof (intro conjI)
  show "tabs_inv (openFileTab node rnd s)" using assms by (rule inv_open)
  show "\<exists>s'. closeTab tid s = Inr s' \<and> tabs_inv s'" using assms by (rule inv_close)
  show "tabs_inv (tab_click i s)" using assms by (rule inv_click)
  show "tabs_inv (frame s)" using assms by (rule inv_frame)
  show "tabs_inv (keydown_Tab s)" using assms by (rule inv_tab_key)
  show "tabs_inv (type_text v pos s)" using assms by (rule inv_typed)
qed

text \<open>The invariant holds in a session with two tabs, and after each step from it.\<close>

theorem C7_witness:
  "tabs_inv (demo_session [''a.js'', ''b.js''] ''a.js'')
   \<and> (tabs_inv (openFileTab (demo_node ''c.css'') ''q7'' (demo_session [''a.js'', ''b.js''] ''a.js''))
      \<and> (\<exists>s'. closeTab (uid ''a.js'' ''k3x'') (demo_session [''a.js'', ''b.js''] ''a.js'') = Inr s'
              \<and> tabs_inv s')
      \<and> tabs_inv (tab_click 1 (demo_session [''a.js'', ''b.js''] ''a.js''))
      \<and> tabs_inv (frame (demo_session [''a.js'', ''b.js''] ''a.js''))
      \<and> tabs_inv (keydown_Tab (demo_session [''a.js'', ''b.js''] ''a.js''))
      \<and> tabs_inv (type_text ''y'' 1 (demo_session [''a.js'', ''b.js''] ''a.js'')))"
proof -
  have h: "tabs_inv (demo_session [''a.js'', ''b.js''] ''a.js'')"
    by (simp add: tabs_inv_def demo_session_def demo_tab_def)
  show ?thesis
    by (rule conjI [OF h C7_tabs_invariant [OF h]])
qed

text \<open>
  C8. In a state the program reaches with exactly one tab open, closing that tab leaves
  no open tab and no active id, a gutter of the single entry 1, an empty textarea and an
  empty highlight layer, and the status texts "No file" and "Plain Text". The result
  is a session, not an error.
\<close>

theorem C8_close_only_tab:
  assumes "reachable s" and "openTabs s = [t]"
  shows "\<exists>s'. closeTab (tab_id t) s = Inr s'
           \<and> openTabs s' = [] \<and> activeTabId s' = None
           \<and> gutterHtml s' = ''<div>1</div>''
           \<and> editorValue s' = [] \<and> highlightHtml s' = []
           \<and> statusFile s' = ''No file'' \<and> statusMode s' = ''Plain Text''"
proof -
  have act: "activeTabId s = Some (tab_id t)"
    using reachable_ok [OF assms(1)] assms(2) by (auto simp: session_ok_def tabs_inv_def)
  define s2 where "s2 = s\<lparr>openTabs := [], activeTabId := None\<rparr>"
  have c: "closeTab (tab_id t) s = Inr (renderTabs (clear_editor s2))"
    using act assms(2)
    by (simp add: closeTab_def Let_def splice1_def pick_active_def js_index_def truthy_def s2_def)
  have e: "editorValue (set_value [] s2) = []"
    by (rule set_value_editorValue)
  have g: "gutterHtml (updateGutter (set_value [] s2\<lparr>highlightHtml := []\<rparr>)) = ''<div>1</div>''"
    using e by (simp add: updateGutter_def gutter_lines_def gutter_entry_def digit_char_def)
  have t: "openTabs (set_value [] s2) = []" "activeTabId (set_value [] s2) = None"
    by (simp_all add: set_value_def s2_def)
  show ?thesis
    using e g t
    by (simp add: c renderTabs_def updateStatusFile_def active_tab_def clear_editor_def Let_def
        updateGutter_def)
qed

text \<open>Open one file in the empty session, then close its tab.\<close>

theorem C8_witness:
  "reachable (openFileTab (demo_node ''a.js'') ''q7'' empty_session)
   \<and> openTabs (openFileTab (demo_node ''a.js'') ''q7'' empty_session)
       = [\<lparr>tab_id = ''a.js-q7'', tab_name = ''a.js'', tab_language = ''js'', tab_content = ''x''\<rparr>]
   \<and> (\<exists>s'. closeTab ''a.js-q7'' (openFileTab (demo_node ''a.js'') ''q7'' empty_session) = Inr s'
           \<and> openTabs s' = [] \<and> activeTabId s' = None \<and> gutterHtml s' = ''<div>1</div>''
           \<and> editorValue s' = [] \<and> statusFile s' = ''No file'')"
proof -
  have r: "reachable (openFileTab (demo_node ''a.js'') ''q7'' empty_session)"
    by (rule reachable.opened, rule reachable.start) (simp_all add: empty_session_def)
  have o: "openTabs (openFileTab (demo_node ''a.js'') ''q7'' empty_session)
       = [\<lparr>tab_id = ''a.js-q7'', tab_name = ''a.js'', tab_language = ''js'', tab_content = ''x''\<rparr>]"
    by (simp add: openFileTab_def createTab_def Let_def empty_session_def demo_node_def uid_def
        or_else_def detectLanguage_def endsWith_def)
  from C8_close_only_tab [OF r o] r o show ?thesis by auto
qed

text \<open>
  C9. Closing an id that no open tab has returns the session as it was, every field of
  it, and raises nothing.
\<close>

theorem C9_close_unknown_id:
  assumes "\<forall>t\<in>set (openTabs s). tab_id t \<noteq> tid"
  shows "closeTab tid s = Inr s"
  using assms by (rule closeTab_absent)

text \<open>No tab of the two has the id \<open>zzz\<close>.\<close>

theorem C9_witness:
  "map tab_id (openTabs (demo_session [''a.js'', ''b.js''] ''a.js'')) = [''a.js-k3x'', ''b.js-k3x'']
   \<and> closeTab ''zzz'' (demo_session [''a.js'', ''b.js''] ''a.js'')
       = Inr (demo_session [''a.js'', ''b.js''] ''a.js'')"
  using C9_close_unknown_id [of "demo_session [''a.js'', ''b.js''] ''a.js''" "''zzz''"]
  by (simp add: demo_session_def demo_tab_def uid_def)


section \<open>The matcher\<close>

subsection \<open>The bound of a repetition\<close>

text \<open>
  \<open>rmatch\<close> is steady, so an iteration of a repetition that is kept has read at least
  one character, and the number of characters left bounds the iterations there can be.
\<close>

lemma steadyI:
  "(\<And>st st'. st' \<in> set (m st) \<Longrightarrow>
      offset st \<le> offset st' \<and> offset st' + remaining st' = offset st + remaining st)
   \<Longrightarrow> steady m"
  unfolding steady_def by blast

lemma steadyD:
  "steady m \<Longrightarrow> st' \<in> set (m st) \<Longrightarrow>
     offset st \<le> offset st' \<and> offset st' + remaining st' = offset st + remaining st"
  unfolding steady_def by blast

lemma steady_same:
  assumes "\<And>st. set (m st) \<subseteq> {st}"
  shows "steady m"
proof (rule steadyI)
  fix st st' :: mstate
  assume "st' \<in> set (m st)"
  with assms [of st] have "st' = st" by blast
  then show "offset st \<le> offset st' \<and> offset st' + remaining st' = offset st + remaining st"
    by simp
qed

lemma steady_eat: "steady (eat f)"
proof (rule steadyI)
  fix st st' :: mstate
  assume a: "st' \<in> set (eat f st)"
  obtain p r k cs where st: "st = (p, r, k, cs)" by (cases st) auto
  show "offset st \<le> offset st' \<and> offset st' + remaining st' = offset st + remaining st"
    using a by (cases r) (auto simp: st split: if_splits)
qed

lemma steady_seq:
  assumes "steady m1" and "steady m2"
  shows "steady (\<lambda>st. concat (map m2 (m1 st)))"
proof (rule steadyI)
  fix st st' :: mstate
  assume "st' \<in> set (concat (map m2 (m1 st)))"
  then obtain mid where mid: "mid \<in> set (m1 st)" "st' \<in> set (m2 mid)" by auto
  from steadyD [OF assms(1) mid(1)] steadyD [OF assms(2) mid(2)]
  show "offset st \<le> offset st' \<and> offset st' + remaining st' = offset st + remaining st"
    by simp
qed

lemma steady_repeat_greedy:
  assumes "steady m"
  shows "steady (repeat_greedy m n)"
proof (induction n)
  case 0
  show ?case by (rule steady_same) simp
next
  case (Suc n)
  show ?case
  proof (rule steadyI)
    fix st st' :: mstate
    assume "st' \<in> set (repeat_greedy m (Suc n) st)"
    then consider "st' = st"
      | mid where "mid \<in> set (m st)" "st' \<in> set (repeat_greedy m n mid)"
      by (simp only: repeat_greedy.simps set_append set_concat set_map set_filter) auto
    then show "offset st \<le> offset st' \<and> offset st' + remaining st' = offset st + remaining st"
    proof cases
      case 1
      then show ?thesis by simp
    next
      case 2
      from steadyD [OF assms 2(1)] steadyD [OF Suc 2(2)] show ?thesis by simp
    qed
  qed
qed

lemma steady_repeat_lazy:
  assumes "steady m"
  shows "steady (repeat_lazy m n)"
proof (induction n)
  case 0
  show ?case by (rule steady_same) simp
next
  case (Suc n)
  show ?case
  proof (rule steadyI)
    fix st st' :: mstate
    assume "st' \<in> set (repeat_lazy m (Suc n) st)"
    then consider "st' = st"
      | mid where "mid \<in> set (m st)" "st' \<in> set (repeat_lazy m n mid)"
      by (simp only: repeat_lazy.simps set_simps set_concat set_map set_filter) auto
    then show "offset st \<le> offset st' \<and> offset st' + remaining st' = offset st + remaining st"
    proof cases
      case 1
      then show ?thesis by simp
    next
      case 2
      from steadyD [OF assms 2(1)] steadyD [OF Suc 2(2)] show ?thesis by simp
    qed
  qed
qed

lemma steady_backref: "steady (backref s0 n)"
proof (rule steadyI)
  fix st st' :: mstate
  assume a: "st' \<in> set (backref s0 n st)"
  obtain p r k cs where st: "st = (p, r, k, cs)" by (cases st) auto
  show "offset st \<le> offset st' \<and> offset st' + remaining st' = offset st + remaining st"
  proof (cases "map_of cs n")
    case None
    with a show ?thesis by (simp add: st)
  next
    case (Some ab)
    obtain a' b' where ab: "ab = (a', b')" by (cases ab) auto
    define t where "t = take (b' - a') (drop a' s0)"
    show ?thesis
    proof (cases "t = []")
      case True
      with a Some show ?thesis by (simp add: st ab t_def)
    next
      case False
      with a Some have tk: "take (length t) r = t" and s': "st' = (Some (last t), drop (length t) r, k + length t, cs)"
        by (auto simp: st ab t_def Let_def split: if_splits)
      have "length (take (length t) r) = length t"
        by (simp only: tk)
      then have "length t \<le> length r"
        by simp
      then show ?thesis by (simp add: s' st)
    qed
  qed
qed

lemma rmatch_steady: "steady (rmatch s0 r)"
proof (induction r)
  case Eps
  show ?case by (rule steady_same) simp
next
  case (Chr c)
  have "rmatch s0 (Chr c) = eat (\<lambda>x. x = c)" by (rule ext) simp
  then show ?case by (simp only: steady_eat)
next
  case Dot
  have "rmatch s0 Dot = eat (\<lambda>x. \<not> is_line_term x)" by (rule ext) simp
  then show ?case by (simp only: steady_eat)
next
  case (Set cl)
  have "rmatch s0 (Set cl) = eat (in_set cl)" by (rule ext) simp
  then show ?case by (simp only: steady_eat)
next
  case (NSet cl)
  have "rmatch s0 (NSet cl) = eat (\<lambda>x. \<not> in_set cl x)" by (rule ext) simp
  then show ?case by (simp only: steady_eat)
next
  case (Seq r1 r2)
  have "rmatch s0 (Seq r1 r2) = (\<lambda>st. concat (map (rmatch s0 r2) (rmatch s0 r1 st)))"
    by (rule ext) simp
  then show ?case by (simp only: steady_seq [OF Seq])
next
  case (Alt r1 r2)
  show ?case
  proof (rule steadyI)
    fix st st' :: mstate
    assume "st' \<in> set (rmatch s0 (Alt r1 r2) st)"
    then have "st' \<in> set (rmatch s0 r1 st) \<or> st' \<in> set (rmatch s0 r2 st)" by simp
    with steadyD [OF Alt(1)] steadyD [OF Alt(2)]
    show "offset st \<le> offset st' \<and> offset st' + remaining st' = offset st + remaining st"
      by blast
  qed
next
  case (Star r)
  show ?case
  proof (rule steadyI)
    fix st st' :: mstate
    assume "st' \<in> set (rmatch s0 (Star r) st)"
    then have "st' \<in> set (repeat_greedy (rmatch s0 r) (remaining st) st)" by simp
    with steadyD [OF steady_repeat_greedy [OF Star]]
    show "offset st \<le> offset st' \<and> offset st' + remaining st' = offset st + remaining st"
      by blast
  qed
next
  case (LazyStar r)
  show ?case
  proof (rule steadyI)
    fix st st' :: mstate
    assume "st' \<in> set (rmatch s0 (LazyStar r) st)"
    then have "st' \<in> set (repeat_lazy (rmatch s0 r) (remaining st) st)" by simp
    with steadyD [OF steady_repeat_lazy [OF LazyStar]]
    show "offset st \<le> offset st' \<and> offset st' + remaining st' = offset st + remaining st"
      by blast
  qed
next
  case (Plus r)
  show ?case
  proof (rule steadyI)
    fix st st' :: mstate
    assume "st' \<in> set (rmatch s0 (Plus r) st)"
    then obtain mid where mid: "mid \<in> set (rmatch s0 r st)"
      "st' \<in> set (repeat_greedy (rmatch s0 r) (remaining mid) mid)" by auto
    from steadyD [OF Plus mid(1)] steadyD [OF steady_repeat_greedy [OF Plus] mid(2)]
    show "offset st \<le> offset st' \<and> offset st' + remaining st' = offset st + remaining st"
      by simp
  qed
next
  case (Opt r)
  show ?case
  proof (rule steadyI)
    fix st st' :: mstate
    assume "st' \<in> set (rmatch s0 (Opt r) st)"
    then have "st' \<in> set (rmatch s0 r st) \<or> st' = st" by auto
    with steadyD [OF Opt]
    show "offset st \<le> offset st' \<and> offset st' + remaining st' = offset st + remaining st"
      by blast
  qed
next
  case (Group n r)
  show ?case
  proof (rule steadyI)
    fix st st' :: mstate
    assume "st' \<in> set (rmatch s0 (Group n r) st)"
    then obtain mid where mid: "mid \<in> set (rmatch s0 r st)" "st' = close_group n (offset st) mid"
      by auto
    obtain p r' k cs where m: "mid = (p, r', k, cs)" by (cases mid) auto
    from steadyD [OF Group mid(1)] mid(2)
    show "offset st \<le> offset st' \<and> offset st' + remaining st' = offset st + remaining st"
      by (simp add: m)
  qed
next
  case (Backref n)
  have "rmatch s0 (Backref n) = backref s0 n" by (rule ext) simp
  then show ?case by (simp only: steady_backref)
next
  case (Look r)
  show ?case
  proof (rule steadyI)
    fix st st' :: mstate
    assume a: "st' \<in> set (rmatch s0 (Look r) st)"
    obtain p r' k cs where st: "st = (p, r', k, cs)" by (cases st) auto
    from a obtain x where "st' = keep_caps st x"
      by (auto split: list.splits)
    then show "offset st \<le> offset st' \<and> offset st' + remaining st' = offset st + remaining st"
      by (cases x) (simp add: st)
  qed
next
  case (NLook r)
  show ?case by (rule steady_same) (auto split: list.splits)
next
  case WordB
  show ?case by (rule steady_same) auto
next
  case Eol
  show ?case by (rule steady_same) auto
next
  case EolM
  show ?case by (rule steady_same) auto
qed

text \<open>The bound of a repetition is never reached: a larger one gives the same states.\<close>

lemma repeat_greedy_bound:
  assumes "steady m"
  shows "remaining st \<le> n \<Longrightarrow> repeat_greedy m (Suc n) st = repeat_greedy m n st"
proof (induction n arbitrary: st)
  case 0
  have "filter (progress st) (m st) = []"
  proof -
    have "\<not> progress st st'" if "st' \<in> set (m st)" for st'
      using steadyD [OF assms that] 0 by (simp add: progress_def)
    then show ?thesis by (simp add: filter_empty_conv)
  qed
  then show ?case by simp
next
  case (Suc n)
  have "repeat_greedy m (Suc n) st' = repeat_greedy m n st'"
    if "st' \<in> set (filter (progress st) (m st))" for st'
  proof -
    from that have "st' \<in> set (m st)" "offset st' \<noteq> offset st"
      by (simp_all add: progress_def)
    with steadyD [OF assms, of st' st] Suc.prems have "remaining st' \<le> n" by simp
    then show ?thesis by (rule Suc.IH)
  qed
  then have "map (repeat_greedy m (Suc n)) (filter (progress st) (m st))
           = map (repeat_greedy m n) (filter (progress st) (m st))"
    by (simp only: map_eq_conv) blast
  then show ?case by (simp only: repeat_greedy.simps)
qed

lemma repeat_lazy_bound:
  assumes "steady m"
  shows "remaining st \<le> n \<Longrightarrow> repeat_lazy m (Suc n) st = repeat_lazy m n st"
proof (induction n arbitrary: st)
  case 0
  have "filter (progress st) (m st) = []"
  proof -
    have "\<not> progress st st'" if "st' \<in> set (m st)" for st'
      using steadyD [OF assms that] 0 by (simp add: progress_def)
    then show ?thesis by (simp add: filter_empty_conv)
  qed
  then show ?case by simp
next
  case (Suc n)
  have "repeat_lazy m (Suc n) st' = repeat_lazy m n st'"
    if "st' \<in> set (filter (progress st) (m st))" for st'
  proof -
    from that have "st' \<in> set (m st)" "offset st' \<noteq> offset st"
      by (simp_all add: progress_def)
    with steadyD [OF assms, of st' st] Suc.prems have "remaining st' \<le> n" by simp
    then show ?thesis by (rule Suc.IH)
  qed
  then have "map (repeat_lazy m (Suc n)) (filter (progress st) (m st))
           = map (repeat_lazy m n) (filter (progress st) (m st))"
    by (simp only: map_eq_conv) blast
  then show ?case by (simp only: repeat_lazy.simps)
qed

lemma star_any_bound:
  "rmatch s0 (Star r) st = repeat_greedy (rmatch s0 r) (remaining st + d) st"
proof (induction d)
  case 0
  show ?case by simp
next
  case (Suc d)
  have "repeat_greedy (rmatch s0 r) (Suc (remaining st + d)) st
        = repeat_greedy (rmatch s0 r) (remaining st + d) st"
    by (rule repeat_greedy_bound [OF rmatch_steady]) simp
  with Suc show ?case by simp
qed

lemma lazy_star_any_bound:
  "rmatch s0 (LazyStar r) st = repeat_lazy (rmatch s0 r) (remaining st + d) st"
proof (induction d)
  case 0
  show ?case by simp
next
  case (Suc d)
  have "repeat_lazy (rmatch s0 r) (Suc (remaining st + d)) st
        = repeat_lazy (rmatch s0 r) (remaining st + d) st"
    by (rule repeat_lazy_bound [OF rmatch_steady]) simp
  with Suc show ?case by simp
qed


subsection \<open>Groups that always take part\<close>

lemma repeat_greedy_captured:
  assumes m: "\<And>st st'. st' \<in> set (m st) \<Longrightarrow> captured g st \<Longrightarrow> captured g st'"
  shows "st' \<in> set (repeat_greedy m n st) \<Longrightarrow> captured g st \<Longrightarrow> captured g st'"
proof (induction n arbitrary: st)
  case 0
  then show ?case by simp
next
  case (Suc n)
  from Suc.prems(1) consider "st' = st"
    | mid where "mid \<in> set (m st)" "st' \<in> set (repeat_greedy m n mid)"
    by (simp only: repeat_greedy.simps set_append set_concat set_map set_filter) auto
  then show ?case
  proof cases
    case 1
    with Suc.prems show ?thesis by simp
  next
    case 2
    from m [OF 2(1) Suc.prems(2)] have "captured g mid" .
    with Suc.IH [OF 2(2)] show ?thesis .
  qed
qed

lemma repeat_lazy_captured:
  assumes m: "\<And>st st'. st' \<in> set (m st) \<Longrightarrow> captured g st \<Longrightarrow> captured g st'"
  shows "st' \<in> set (repeat_lazy m n st) \<Longrightarrow> captured g st \<Longrightarrow> captured g st'"
proof (induction n arbitrary: st)
  case 0
  then show ?case by simp
next
  case (Suc n)
  from Suc.prems(1) consider "st' = st"
    | mid where "mid \<in> set (m st)" "st' \<in> set (repeat_lazy m n mid)"
    by (simp only: repeat_lazy.simps set_simps set_concat set_map set_filter) auto
  then show ?case
  proof cases
    case 1
    with Suc.prems show ?thesis by simp
  next
    case 2
    from m [OF 2(1) Suc.prems(2)] have "captured g mid" .
    with Suc.IH [OF 2(2)] show ?thesis .
  qed
qed

lemma eat_captured: "st' \<in> set (eat f st) \<Longrightarrow> captured g st \<Longrightarrow> captured g st'"
proof -
  obtain p r k cs where st: "st = (p, r, k, cs)" by (cases st) auto
  show "st' \<in> set (eat f st) \<Longrightarrow> captured g st \<Longrightarrow> captured g st'"
    by (cases r) (auto simp: st split: if_splits)
qed

lemma backref_captured: "st' \<in> set (backref s0 n st) \<Longrightarrow> captured g st \<Longrightarrow> captured g st'"
proof -
  obtain p r k cs where st: "st = (p, r, k, cs)" by (cases st) auto
  show "st' \<in> set (backref s0 n st) \<Longrightarrow> captured g st \<Longrightarrow> captured g st'"
    by (auto simp: st Let_def split: option.splits if_splits)
qed

lemma close_group_captured: "captured g st \<Longrightarrow> captured g (close_group n a st)"
  by (cases st) auto

lemma close_group_sets: "captured n (close_group n a st)"
  by (cases st) auto

lemma rmatch_captured:
  "st' \<in> set (rmatch s0 r st) \<Longrightarrow> captured g st \<Longrightarrow> captured g st'"
proof (induction r arbitrary: st st')
  case (Seq r1 r2)
  from Seq.prems(1) obtain mid where "mid \<in> set (rmatch s0 r1 st)" "st' \<in> set (rmatch s0 r2 mid)"
    by auto
  with Seq.IH Seq.prems(2) show ?case by blast
next
  case (Alt r1 r2)
  from Alt.prems(1) have "st' \<in> set (rmatch s0 r1 st) \<or> st' \<in> set (rmatch s0 r2 st)"
    by simp
  with Alt.IH Alt.prems(2) show ?case by blast
next
  case (Star r)
  from Star.prems(1) have "st' \<in> set (repeat_greedy (rmatch s0 r) (remaining st) st)" by simp
  from repeat_greedy_captured [where m = "rmatch s0 r", OF Star.IH this Star.prems(2)]
  show ?case .
next
  case (LazyStar r)
  from LazyStar.prems(1) have "st' \<in> set (repeat_lazy (rmatch s0 r) (remaining st) st)" by simp
  from repeat_lazy_captured [where m = "rmatch s0 r", OF LazyStar.IH this LazyStar.prems(2)]
  show ?case .
next
  case (Plus r)
  from Plus.prems(1) obtain mid where mid: "mid \<in> set (rmatch s0 r st)"
    "st' \<in> set (repeat_greedy (rmatch s0 r) (remaining mid) mid)" by auto
  from Plus.IH [OF mid(1) Plus.prems(2)] have c: "captured g mid" .
  from repeat_greedy_captured [where m = "rmatch s0 r", OF Plus.IH mid(2) c]
  show ?case .
next
  case (Opt r)
  from Opt.prems(1) have "st' \<in> set (rmatch s0 r st) \<or> st' = st"
    by auto
  with Opt.IH Opt.prems(2) show ?case by blast
next
  case (Group n r)
  from Group.prems(1) obtain mid where "mid \<in> set (rmatch s0 r st)"
    "st' = close_group n (offset st) mid" by auto
  with Group.IH Group.prems(2) show ?case by (simp add: close_group_captured)
next
  case (Backref n)
  then show ?case using backref_captured [of st' s0 n st g] by simp
next
  case (Look r)
  show ?case
  proof (cases "rmatch s0 r st")
    case Nil
    with Look.prems(1) show ?thesis by simp
  next
    case (Cons x xs)
    with Look.prems(1) have s': "st' = keep_caps st x" by simp
    from Cons have "x \<in> set (rmatch s0 r st)" by simp
    from Look.IH [OF this Look.prems(2)] have "captured g x" .
    with s' show ?thesis by (cases x; cases st) simp
  qed
next
  case (NLook r)
  from NLook.prems(1) have "st' = st" by (auto split: list.splits)
  with NLook.prems(2) show ?case by simp
next
  case Eps
  then show ?case by simp
next
  case (Chr c)
  then show ?case using eat_captured [of st' "\<lambda>x. x = c" st g] by simp
next
  case Dot
  then show ?case using eat_captured [of st' "\<lambda>x. \<not> is_line_term x" st g] by simp
next
  case (Set cl)
  then show ?case using eat_captured [of st' "in_set cl" st g] by simp
next
  case (NSet cl)
  then show ?case using eat_captured [of st' "\<lambda>x. \<not> in_set cl x" st g] by simp
next
  case WordB
  from WordB(1) have "st' = st" by (auto split: if_splits)
  with WordB(2) show ?case by simp
next
  case Eol
  from Eol(1) have "st' = st" by (auto split: if_splits)
  with Eol(2) show ?case by simp
next
  case EolM
  from EolM(1) have "st' = st" by (auto split: if_splits)
  with EolM(2) show ?case by simp
qed

lemma group_captured: "st' \<in> set (rmatch s0 (Group n r) st) \<Longrightarrow> captured n st'"
  by (auto simp: close_group_sets)

lemma seq_captured_left:
  assumes "st' \<in> set (rmatch s0 (Seq r1 r2) st)"
    and "\<And>mid. mid \<in> set (rmatch s0 r1 st) \<Longrightarrow> captured g mid"
  shows "captured g st'"
proof -
  from assms(1) obtain mid where mid: "mid \<in> set (rmatch s0 r1 st)" "st' \<in> set (rmatch s0 r2 mid)"
    by auto
  from rmatch_captured [OF mid(2) assms(2) [OF mid(1)]] show ?thesis .
qed

lemma seq_captured_right:
  assumes "st' \<in> set (rmatch s0 (Seq r1 r2) st)"
    and "\<And>mid. st' \<in> set (rmatch s0 r2 mid) \<Longrightarrow> captured g st'"
  shows "captured g st'"
proof -
  from assms(1) obtain mid where "st' \<in> set (rmatch s0 r2 mid)"
    by auto
  then show ?thesis by (rule assms(2))
qed

lemma css_value_group:
  assumes "st' \<in> set (rmatch s0 css_value_re st)"
  shows "captured 1 st'"
  using assms unfolding css_value_re_def
  by (elim seq_captured_right) (rule group_captured)

lemma html_tag_groups:
  assumes "st' \<in> set (rmatch s0 html_tag_re st)"
  shows "captured 1 st'" and "captured 2 st'" and "captured 3 st'"
proof -
  show "captured 1 st'"
    using assms unfolding html_tag_re_def
    by (elim seq_captured_left) (rule group_captured)
  show "captured 2 st'"
    using assms unfolding html_tag_re_def
    by (elim seq_captured_right seq_captured_left) (rule group_captured)
  show "captured 3 st'"
    using assms unfolding html_tag_re_def
    by (elim seq_captured_right) (rule group_captured)
qed

lemma html_script_groups:
  assumes "st' \<in> set (rmatch s0 html_script_re st)"
  shows "captured 1 st'" and "captured 2 st'" and "captured 3 st'"
proof -
  show "captured 1 st'"
    using assms unfolding html_script_re_def
    by (elim seq_captured_left) (rule group_captured)
  show "captured 2 st'"
    using assms unfolding html_script_re_def
    by (elim seq_captured_right seq_captured_left) (rule group_captured)
  show "captured 3 st'"
    using assms unfolding html_script_re_def
    by (elim seq_captured_right) (rule group_captured)
qed

text \<open>
  So the callbacks get every group they read: whatever the text, every match that
  \<open>find_all\<close> reports has it.
\<close>

lemma find_all_captured:
  "(\<And>s0 st st'. st' \<in> set (rmatch s0 r st) \<Longrightarrow> captured g st')
   \<Longrightarrow> (a, b, cs) \<in> set (find_all r prev rest i) \<Longrightarrow> map_of cs g \<noteq> None"
proof (induction r prev rest i rule: find_all.induct)
  case (1 r prev rest i)
  note all = "1.prems"(1)
  have hd: "map_of cs' g \<noteq> None" if "rmatch rest r (prev, rest, 0, []) = (p', r', k, cs') # more"
    for p' r' k cs' more
  proof -
    from that have "(p', r', k, cs') \<in> set (rmatch rest r (prev, rest, 0, []))" by simp
    from all [OF this] show ?thesis by simp
  qed
  show ?case
  proof (cases rest)
    case Nil
    note rest = Nil
    show ?thesis
    proof (cases "rmatch rest r (prev, rest, 0, [])")
      case Nil
      with "1.prems"(2) rest show ?thesis
        by (subst (asm) find_all.simps) simp
    next
      case (Cons x more)
      obtain p' r' k cs' where x: "x = (p', r', k, cs')" by (cases x) auto
      note m = Cons [unfolded x]
      from "1.prems"(2) rest m have "cs = cs'"
        by (subst (asm) find_all.simps) simp
      with hd [OF m] show ?thesis by simp
    qed
  next
    case (Cons c rest')
    note rest = Cons
    show ?thesis
    proof (cases "rmatch rest r (prev, rest, 0, [])")
      case Nil
      with "1.prems"(2) rest have "(a, b, cs) \<in> set (find_all r (Some c) rest' (Suc i))"
        by (subst (asm) find_all.simps) simp
      with "1.IH"(1) [OF rest Nil all] show ?thesis by simp
    next
      case (Cons x more)
      obtain p' r' k cs' where x: "x = (p', r', k, cs')" by (cases x) auto
      note m = Cons [unfolded x]
      from "1.prems"(2) rest m
      consider "cs = cs'"
        | "k = 0" "(a, b, cs) \<in> set (find_all r (Some c) rest' (Suc i))"
        | "k \<noteq> 0" "(a, b, cs) \<in> set (find_all r p' (drop k rest) (i + k))"
        by (subst (asm) find_all.simps) (auto split: if_splits)
      then show ?thesis
      proof cases
        case 1
        with hd [OF m] show ?thesis by simp
      next
        case 2
        from "1.IH"(2) [OF rest m refl refl refl 2(1) all 2(2)] show ?thesis .
      next
        case 3
        from "1.IH"(3) [OF rest m refl refl refl 3(1) all 3(2)] show ?thesis .
      qed
    qed
  qed
qed


lemma css_value_matches:
  "(a, b, cs) \<in> set (find_all css_value_re prev rest i) \<Longrightarrow> map_of cs 1 \<noteq> None"
  by (rule find_all_captured [where r = css_value_re]) (rule css_value_group)

lemma html_tag_matches:
  assumes "(a, b, cs) \<in> set (find_all html_tag_re prev rest i)"
  shows "map_of cs 1 \<noteq> None" and "map_of cs 2 \<noteq> None" and "map_of cs 3 \<noteq> None"
proof -
  show "map_of cs 1 \<noteq> None"
    using assms by (rule find_all_captured [where r = html_tag_re, rotated]) (rule html_tag_groups)
  show "map_of cs 2 \<noteq> None"
    using assms by (rule find_all_captured [where r = html_tag_re, rotated]) (rule html_tag_groups)
  show "map_of cs 3 \<noteq> None"
    using assms by (rule find_all_captured [where r = html_tag_re, rotated]) (rule html_tag_groups)
qed

lemma html_script_matches:
  assumes "(a, b, cs) \<in> set (find_all html_script_re prev rest i)"
  shows "map_of cs 1 \<noteq> None" and "map_of cs 2 \<noteq> None" and "map_of cs 3 \<noteq> None"
proof -
  show "map_of cs 1 \<noteq> None"
    using assms by (rule find_all_captured [where r = html_script_re, rotated]) (rule html_script_groups)
  show "map_of cs 2 \<noteq> None"
    using assms by (rule find_all_captured [where r = html_script_re, rotated]) (rule html_script_groups)
  show "map_of cs 3 \<noteq> None"
    using assms by (rule find_all_captured [where r = html_script_re, rotated]) (rule html_script_groups)
qed


section \<open>The highlighters\<close>

subsection \<open>The comment pattern of the CSS highlighter\<close>

text \<open>
  The pattern asks for a character after the end of the text, so it matches nowhere,
  and the comment pass of \<open>highlightCSS\<close> returns its argument.
\<close>

lemma seq_never: "(\<And>st. rmatch s0 r2 st = []) \<Longrightarrow> rmatch s0 (Seq r1 r2) st = []"
  by simp

lemma eol_then_char: "rmatch s0 (Seq Eol (Seq (Chr c) r)) st = []"
proof -
  obtain p rest k cs where st: "st = (p, rest, k, cs)"
    by (cases st) auto
  show ?thesis
    by (cases rest) (simp_all add: st)
qed

lemma css_comment_never: "rmatch s0 css_comment_re st = []"
proof -
  have "rmatch s0 (Seq Eol (lit ''&<'')) st' = []" for st'
    using eol_then_char [of s0 "CHR ''&''" "Chr (CHR ''<'')" st'] by simp
  then show ?thesis
    unfolding css_comment_re_def
    by (intro seq_never [where ?r2.0 = "Seq Eol (lit ''&<'')"] seq_never [where ?r1.0 = "LazyStar any_char"]
        seq_never [where ?r1.0 = "lit ''/*''"])
qed

lemma find_all_never:
  "(\<And>s0 st. rmatch s0 r st = []) \<Longrightarrow> find_all r prev rest i = []"
proof (induction rest arbitrary: prev i)
  case Nil
  then show ?case by (subst find_all.simps) simp
next
  case (Cons c rest)
  then show ?case by (subst find_all.simps) simp
qed

lemma css_comment_pass: "js_replace_str view ins css_comment_re tpl xs = xs"
  by (simp add: js_replace_str_def js_replace_def find_all_never css_comment_never)


text \<open>
  C4, at the input \<open>/* c */\<close>: the CSS highlighter returns the comment as it came, with
  no comment-class span around it. The claim asks for the span around every block
  comment; the pattern written to find the comment cannot match (\<open>css_comment_pass\<close>).
\<close>

theorem C4_css_comment_not_wrapped:
  \<open>highlightCSS ''/* c */'' = ''/* c */''
   \<and> \<not> js_includes (highlightCSS ''/* c */'') ''<span class="token-comment">''\<close>
proof -
  have e: "highlightCSS ''/* c */'' = ''/* c */''"
    by code_simp
  show ?thesis
    unfolding e by code_simp
qed

subsection \<open>The scenario of the JavaScript highlighter\<close>

text \<open>
  C1, at its input. The comment pass wraps \<open>// hi\<close> and the number pass wraps \<open>5\<close>, but
  the passes that follow read the markup already inserted: the string pattern matches the
  quoted \<open>"token-comment"\<close> inside the opening tag of the comment span, and the keyword
  pattern matches the word \<open>class\<close> inside every opening tag inserted before it. The
  result holds the keyword span around \<open>const\<close> intact, and neither the number span
  around \<open>5\<close> nor the comment span around \<open>// hi\<close>.
\<close>

theorem C1_js_scenario_output:
  \<open>highlightJS ''const x = 5; // hi'' =
     ''<span class="token-keyword">const</span> x = <span <span class="token-keyword">class</span>="token-number">5</span>; <span <span class="token-keyword">class</span>=<span <span class="token-keyword">class</span>="token-string">"token-comment"</span>>// hi</span>''
   \<and> js_includes (highlightJS ''const x = 5; // hi'') ''<span class="token-keyword">const</span>''
   \<and> \<not> js_includes (highlightJS ''const x = 5; // hi'') ''<span class="token-number">5</span>''
   \<and> \<not> js_includes (highlightJS ''const x = 5; // hi'') ''<span class="token-comment">// hi</span>''\<close>
proof -
  have e: \<open>highlightJS ''const x = 5; // hi'' =
     ''<span class="token-keyword">const</span> x = <span <span class="token-keyword">class</span>="token-number">5</span>; <span <span class="token-keyword">class</span>=<span <span class="token-keyword">class</span>="token-string">"token-comment"</span>>// hi</span>''\<close>
    by code_simp
  show ?thesis
    unfolding e by code_simp
qed

subsection \<open>The marks do not change the text\<close>

lemma build_erase:
  assumes "\<And>m cs off. map fst (cb m cs off) = cb' (map fst m) cs off"
  shows "map fst (build cb xs cur ms) = build cb' (map fst xs) cur ms"
proof (induction ms arbitrary: xs cur)
  case Nil
  show ?case by simp
next
  case (Cons m ms)
  obtain a b cs where m: "m = (a, b, cs)" by (cases m) auto
  show ?case
    by (simp add: m assms Cons.IH take_map drop_map)
qed

lemma js_replace_erase:
  assumes "\<And>m cs off. map fst (cb m cs off) = cb' (map fst m) cs off"
  shows "map fst (js_replace fst r cb xs) = js_replace (\<lambda>c. c) r cb' (map fst xs)"
  by (simp add: js_replace_def build_erase [where cb = cb and cb' = cb', OF assms])

lemma grp_erase: "grp (map f m) cs n = map_option (map f) (grp m cs n)"
  by (simp add: grp_def take_map drop_map split: option.splits)

lemma arg_erase: "arg (map_option (map f) g) = map f (arg g)"
  by (simp add: arg_def split: option.splits)

lemma fst_written [simp]: "fst (written c) = c"
  by (simp add: written_def)

lemma written_erase [simp]: "map (fst \<circ> written) l = l"
  by (induction l) simp_all

lemma expand_piece_erase:
  "map fst (expand_piece written m cs p) = expand_piece (\<lambda>c. c) (map fst m) cs p"
  by (cases p) (simp_all add: grp_erase split: option.splits)

lemma expand_erase:
  "map fst (expand written tpl m cs off) = expand (\<lambda>c. c) tpl (map fst m) cs off"
  by (induction tpl) (simp_all add: expand_def expand_piece_erase)

lemma js_replace_str_erase:
  "map fst (js_replace_str fst written r tpl xs) = js_replace_str (\<lambda>c. c) (\<lambda>c. c) r tpl (map fst xs)"
  unfolding js_replace_str_def by (rule js_replace_erase) (rule expand_erase)

lemma replace_char_erase:
  "map fst (replace_char fst written c l xs) = replace_char (\<lambda>c. c) (\<lambda>c. c) c l (map fst xs)"
  by (induction xs) (simp_all add: replace_char_def)

lemma escapeHtml_erase:
  "map fst (escapeHtml_on fst written xs) = escapeHtml_on (\<lambda>c. c) (\<lambda>c. c) (map fst xs)"
  by (simp add: escapeHtml_on_def replace_char_erase)

lemma css_value_cb_erase:
  "map fst (css_value_cb fst written m cs off) = css_value_cb (\<lambda>c. c) (\<lambda>c. c) (map fst m) cs off"
  by (simp add: css_value_cb_def Let_def escapeHtml_erase grp_erase arg_erase)

lemma html_tag_cb_erase:
  "map fst (html_tag_cb fst written m cs off) = html_tag_cb (\<lambda>c. c) (\<lambda>c. c) (map fst m) cs off"
  by (simp add: html_tag_cb_def Let_def js_replace_str_erase grp_erase arg_erase)

lemma html_script_cb_erase:
  "map fst (html_script_cb fst written m cs off) = html_script_cb (\<lambda>c. c) (\<lambda>c. c) (map fst m) cs off"
  by (simp add: html_script_cb_def Let_def escapeHtml_erase grp_erase arg_erase)

lemma highlightJS_erase:
  "map fst (highlightJS_on fst written xs) = highlightJS_on (\<lambda>c. c) (\<lambda>c. c) (map fst xs)"
  by (simp add: highlightJS_on_def Let_def js_replace_str_erase escapeHtml_erase)

lemma highlightCSS_erase:
  "map fst (highlightCSS_on fst written xs) = highlightCSS_on (\<lambda>c. c) (\<lambda>c. c) (map fst xs)"
  by (simp add: highlightCSS_on_def Let_def js_replace_str_erase escapeHtml_erase
      js_replace_erase [where cb = "css_value_cb fst written"
        and cb' = "css_value_cb (\<lambda>c. c) (\<lambda>c. c)", OF css_value_cb_erase])

lemma highlightHTML_erase:
  "map fst (highlightHTML_on fst written xs) = highlightHTML_on (\<lambda>c. c) (\<lambda>c. c) (map fst xs)"
  by (simp add: highlightHTML_on_def Let_def js_replace_str_erase escapeHtml_erase
      js_replace_erase [where cb = "html_tag_cb fst written"
        and cb' = "html_tag_cb (\<lambda>c. c) (\<lambda>c. c)", OF html_tag_cb_erase]
      js_replace_erase [where cb = "html_script_cb fst written"
        and cb' = "html_script_cb (\<lambda>c. c) (\<lambda>c. c)", OF html_script_cb_erase])

lemma from_source_erase: "map fst (from_source code) = code"
  by (induction code) (simp_all add: from_source_def)

lemma highlight_marked_erase: "map fst (highlight_marked code mode) = highlightByMode code mode"
  by (simp add: highlight_marked_def highlightByMode_def highlightByMode_on_def highlightJS_erase
      highlightCSS_erase highlightHTML_erase escapeHtml_erase from_source_erase)

subsection \<open>Every angle bracket of the output was written by a literal\<close>

lemma bw_Nil [simp]: "brackets_written []"
  by (simp add: brackets_written_def)

lemma bw_append [simp]: "brackets_written (xs @ ys) = (brackets_written xs \<and> brackets_written ys)"
  by (auto simp: brackets_written_def)

lemma bw_take: "brackets_written xs \<Longrightarrow> brackets_written (take n xs)"
  by (auto simp: brackets_written_def dest: in_set_takeD)

lemma bw_drop: "brackets_written xs \<Longrightarrow> brackets_written (drop n xs)"
  by (auto simp: brackets_written_def dest: in_set_dropD)

lemma bw_written [simp]: "brackets_written (map written l)"
  by (simp add: brackets_written_def written_def)

lemma bw_Cons_written [simp]: "brackets_written (written c # xs) = brackets_written xs"
  by (simp add: brackets_written_def written_def)

lemma bw_build:
  assumes cb: "\<And>m cs off. brackets_written m \<Longrightarrow> brackets_written (cb m cs off)"
  shows "brackets_written xs \<Longrightarrow> brackets_written (build cb xs cur ms)"
proof (induction ms arbitrary: xs cur)
  case Nil
  then show ?case by simp
next
  case (Cons m ms)
  obtain a b cs where m: "m = (a, b, cs)" by (cases m) auto
  show ?case
    using Cons.prems by (simp add: m cb Cons.IH bw_take bw_drop)
qed

lemma bw_js_replace:
  assumes "\<And>m cs off. brackets_written m \<Longrightarrow> brackets_written (cb m cs off)"
    and "brackets_written xs"
  shows "brackets_written (js_replace view r cb xs)"
  unfolding js_replace_def using assms by (rule bw_build)

lemma bw_arg_grp: "brackets_written m \<Longrightarrow> brackets_written (arg (grp m cs n))"
  by (simp add: arg_def grp_def bw_take bw_drop split: option.splits)

lemma bw_expand_piece: "brackets_written m \<Longrightarrow> brackets_written (expand_piece written m cs p)"
  by (cases p) (simp_all add: grp_def bw_take bw_drop split: option.splits)

lemma bw_expand: "brackets_written m \<Longrightarrow> brackets_written (expand written tpl m cs off)"
  by (induction tpl) (simp_all add: expand_def bw_expand_piece)

lemma bw_js_replace_str:
  "brackets_written xs \<Longrightarrow> brackets_written (js_replace_str view written r tpl xs)"
  unfolding js_replace_str_def by (rule bw_js_replace) (rule bw_expand)

lemma bw_replace_char:
  "brackets_written xs \<Longrightarrow> brackets_written (replace_char view written c l xs)"
  by (induction xs) (auto simp: replace_char_def brackets_written_def written_def)

lemma bw_escapeHtml:
  "brackets_written xs \<Longrightarrow> brackets_written (escapeHtml_on view written xs)"
  by (simp add: escapeHtml_on_def bw_replace_char)

lemma bw_css_value_cb:
  "brackets_written m \<Longrightarrow> brackets_written (css_value_cb view written m cs off)"
  by (simp add: css_value_cb_def Let_def bw_escapeHtml bw_arg_grp)

lemma bw_html_tag_cb:
  "brackets_written m \<Longrightarrow> brackets_written (html_tag_cb view written m cs off)"
  by (simp add: html_tag_cb_def Let_def bw_js_replace_str bw_arg_grp)

lemma bw_html_script_cb:
  "brackets_written m \<Longrightarrow> brackets_written (html_script_cb view written m cs off)"
  by (simp add: html_script_cb_def Let_def bw_escapeHtml bw_arg_grp)

text \<open>After \<open>escapeHtml\<close> no angle bracket of the source is left at all.\<close>

lemma replace_char_Nil [simp]: "replace_char view ins c l [] = []"
  by (simp add: replace_char_def)

lemma replace_char_Cons:
  "replace_char view ins c l (x # xs) =
     (if view x = c then map ins l else [x]) @ replace_char view ins c l xs"
  by (simp add: replace_char_def)

lemma replace_char_append:
  "replace_char view ins c l (xs @ ys) = replace_char view ins c l xs @ replace_char view ins c l ys"
  by (simp add: replace_char_def)

lemma escape_one:
  "escapeHtml_on (\<lambda>c. c) (\<lambda>c. c) [c] =
     (if c = CHR ''&'' then ''&amp;'' else if c = CHR ''<'' then ''&lt;''
      else if c = CHR ''>'' then ''&gt;'' else [c])"
  by (simp add: escapeHtml_on_def replace_char_Cons)

lemma escape_append:
  "escapeHtml_on view ins (xs @ ys) = escapeHtml_on view ins xs @ escapeHtml_on view ins ys"
  by (simp add: escapeHtml_on_def replace_char_append)


lemma escapeHtml_chars:
  "escapeHtml code =
     concat (map (\<lambda>c. if c = CHR ''&'' then ''&amp;'' else if c = CHR ''<'' then ''&lt;''
                       else if c = CHR ''>'' then ''&gt;'' else [c]) code)"
proof (induction code)
  case Nil
  show ?case by (simp add: escapeHtml_def escapeHtml_on_def)
next
  case (Cons c code)
  have "escapeHtml (c # code) = escapeHtml_on (\<lambda>c. c) (\<lambda>c. c) [c] @ escapeHtml code"
    using escape_append [of "\<lambda>c. c" "\<lambda>c. c" "[c]" code] by (simp add: escapeHtml_def)
  then show ?case
    by (simp only: escape_one Cons.IH list.map concat.simps)
qed

lemma escapeHtml_no_angle: "\<forall>c\<in>set (escapeHtml code). \<not> is_angle c"
proof -
  have "\<forall>x\<in>set ((\<lambda>c. if c = CHR ''&'' then ''&amp;'' else if c = CHR ''<'' then ''&lt;''
                       else if c = CHR ''>'' then ''&gt;'' else [c]) c). \<not> is_angle x" for c
    by (simp add: is_angle_def)
  then show ?thesis
    unfolding escapeHtml_chars by (simp only: set_concat set_map) blast
qed

lemma bw_from_source_escaped: "brackets_written (escapeHtml_on fst written (from_source code))"
proof -
  have "map fst (escapeHtml_on fst written (from_source code)) = escapeHtml code"
    by (simp only: escapeHtml_erase from_source_erase escapeHtml_def)
  then have "\<forall>c\<in>set (map fst (escapeHtml_on fst written (from_source code))). \<not> is_angle c"
    using escapeHtml_no_angle [of code] by simp
  then show ?thesis by (simp add: brackets_written_def)
qed


lemma bw_highlightJS:
  "brackets_written (escapeHtml_on view written xs)
   \<Longrightarrow> brackets_written (highlightJS_on view written xs)"
  by (simp add: highlightJS_on_def Let_def bw_js_replace_str)

lemma bw_highlightCSS:
  "brackets_written (escapeHtml_on view written xs)
   \<Longrightarrow> brackets_written (highlightCSS_on view written xs)"
  by (simp add: highlightCSS_on_def Let_def bw_js_replace_str bw_js_replace bw_css_value_cb)

lemma bw_highlightHTML:
  "brackets_written (escapeHtml_on view written xs)
   \<Longrightarrow> brackets_written (highlightHTML_on view written xs)"
  by (simp add: highlightHTML_on_def Let_def bw_js_replace_str bw_js_replace
      bw_html_tag_cb bw_html_script_cb)

lemma bw_highlight_marked: "brackets_written (highlight_marked code mode)"
  unfolding highlight_marked_def highlightByMode_on_def
  using bw_from_source_escaped [of code]
  by (simp only: bw_highlightJS bw_highlightCSS bw_highlightHTML if_split simp_thms)

text \<open>
  What does hold for every text and every language tag: the highlighter on marked
  characters computes the text the highlighter computes, and every \<open><\<close> and \<open>>\<close> of
  that text is a character written by a string literal of the highlighter, none is a
  character of the source. The source is escaped first, character by character, \<open>&\<close>,
  \<open><\<close> and \<open>>\<close> to their entities, and the escaped text has no angle bracket.
\<close>

lemma brackets_from_literals:
  "map fst (highlight_marked code mode) = highlightByMode code mode
   \<and> (\<forall>x\<in>set (highlight_marked code mode). is_angle (fst x) \<longrightarrow> snd x)
   \<and> (\<forall>c\<in>set (escapeHtml code). \<not> is_angle c)
   \<and> escapeHtml code =
       concat (map (\<lambda>c. if c = CHR ''&'' then ''&amp;'' else if c = CHR ''<'' then ''&lt;''
                         else if c = CHR ''>'' then ''&gt;'' else [c]) code)"
proof (intro conjI)
  show "map fst (highlight_marked code mode) = highlightByMode code mode"
    by (rule highlight_marked_erase)
  show "\<forall>x\<in>set (highlight_marked code mode). is_angle (fst x) \<longrightarrow> snd x"
    using bw_highlight_marked [of code mode] by (simp only: brackets_written_def)
  show "\<forall>c\<in>set (escapeHtml code). \<not> is_angle c"
    by (rule escapeHtml_no_angle)
  show "escapeHtml code =
       concat (map (\<lambda>c. if c = CHR ''&'' then ''&amp;'' else if c = CHR ''<'' then ''&lt;''
                         else if c = CHR ''>'' then ''&gt;'' else [c]) code)"
    by (rule escapeHtml_chars)
qed

subsection \<open>Angle brackets outside the span tags\<close>


end
